theory Spec2Isabelle
  imports Main
begin

section \<open>The instrument controller simulator (app/main.py)\<close>

text \<open>
  The simulator keeps three module-level variables (the activity registry, the id counter
  and the event queue) and a set of background tasks created with
  \<^verbatim>\<open>asyncio.create_task\<close>. The model threads all four through every handler as one
  record. A handler runs without interruption up to its next \<^verbatim>\<open>asyncio.sleep\<close>
  (putting into an unbounded queue never suspends), so each handler and each segment of a
  background task between two sleeps is one atomic step.

  What a step reads from outside the program is an explicit input of the step: the clock
  (\<^verbatim>\<open>datetime.now\<close>), the two \<^verbatim>\<open>uuid.uuid4()\<close> results and the library
  function \<^verbatim>\<open>dateutil.parser.isoparse\<close>.
\<close>

subsection \<open>JSON values, responses, requests\<close>

text \<open>
  A JSON object is the association list of its keys in insertion order, as a Python dict
  literal builds it. \<open>T\<close> is a timestamp produced by \<^verbatim>\<open>now_ts\<close>.
\<close>

datatype jval = S string | B bool | L "string list" | T int

type_synonym payload = "(string \<times> jval) list"

text \<open>A handler either raises \<^verbatim>\<open>HTTPException(status_code, detail)\<close> or returns a
  JSON body with the status code of its route. The request models are checked by the
  framework (\<^verbatim>\<open>Field(min_length=1)\<close>) before a handler runs; the handlers are modelled
  on every request, checked or not.\<close>

datatype response = HTTPException nat string | JSONResponse nat payload

record KeyValString =
  kv_key :: string
  kv_value :: string

record PerformActionCmd =
  actionName :: string
  actionOptions :: "KeyValString list option"

record CancelActivityCmd =
  cmd_activityId :: string
  reason :: string

record StartActivityReq =
  req_activityName :: string
  activityOptions :: "KeyValString list option"
  activityDeadline :: "string option"

subsection \<open>The activity record and the simulator state\<close>

text \<open>
  \<^verbatim>\<open>now_ts\<close> truncates the clock to whole seconds and renders it as ISO 8601 text. The
  model keeps the clock in microseconds since the epoch and a timestamp as the number of
  whole seconds; the rendering (a non-empty text, so a set timestamp is truthy) is the
  datetime library's and is not modelled.

  A parsed deadline is a \<^verbatim>\<open>datetime\<close> of the library. The program does one thing with
  it: \<^verbatim>\<open>st.deadline.astimezone(timezone.utc)\<close> on line 151, which gives the instant it
  denotes or raises (OverflowError when the offset moves it out of the years 1 to 9999,
  as for 9999-12-31T23:59:59-14:00; ValueError or OverflowError for a naive value at
  either end of the range). The model keeps a datetime as that outcome: the instant in
  microseconds since the epoch, or the text of the exception.
\<close>

datatype datetime = Instant int | Unconvertible string

definition astimezone_utc :: "datetime \<Rightarrow> string + int" where
  "astimezone_utc d = (case d of Instant t \<Rightarrow> Inr t | Unconvertible ex \<Rightarrow> Inl ex)"

type_synonym parser = "string \<Rightarrow> string + datetime"

definition now_ts :: "int \<Rightarrow> int" where
  "now_ts clk = clk div 1000000"

record ActivityState =
  activityId :: string
  activityName :: string
  status :: string
  timeBegin :: int
  timeEnd :: "int option"
  statusMsg :: "string option"
  products :: "string list"
  deadline :: "datetime option"

record envelope =
  eventName :: string
  eventData :: payload

text \<open>
  A background task is the closure it was created from and the sleep it is waiting in:
  \<open>Complete cmd t_begin\<close> is \<^verbatim>\<open>complete()\<close> of \<^verbatim>\<open>perform_action\<close> in its only sleep,
  \<open>Run1 a\<close> and \<open>Run2 a\<close> are \<^verbatim>\<open>run()\<close> of \<^verbatim>\<open>start_activity\<close> in its first and
  second sleep. \<^verbatim>\<open>run\<close> holds the \<^verbatim>\<open>ActivityState\<close> object itself, not its id, so the
  records live in a store (\<open>objects\<close>, an object's address is its index), the registry
  maps an id to an address, and a task holds an address.
\<close>

datatype task = Complete PerformActionCmd int | Run1 nat | Run2 nat

record sim =
  activities :: "string \<rightharpoonup> nat"
  objects :: "ActivityState list"
  next_activity_num :: nat
  event_queue :: "envelope list"
  tasks :: "task list"

record env =
  clock :: int
  uuid_a :: string
  uuid_b :: string

definition ACTIONS :: "string list" where
  "ACTIONS = [''HOME'', ''MOVE'', ''CALIBRATE'']"

definition ACTIVITIES :: "string list" where
  "ACTIVITIES = [''BUILD'', ''SCAN'']"

text \<open>The module's initial state: empty queue and registry, counter 1, no task.\<close>

definition init :: sim where
  "init = \<lparr>activities = Map.empty, objects = [], next_activity_num = 1,
           event_queue = [], tasks = []\<rparr>"

definition emit :: "string \<Rightarrow> payload \<Rightarrow> sim \<Rightarrow> sim" where
  "emit event_name event_data s =
     s\<lparr>event_queue := event_queue s @ [\<lparr>eventName = event_name, eventData = event_data\<rparr>]\<rparr>"

subsection \<open>Text helpers: \<^verbatim>\<open>str.upper\<close> and the format \<^verbatim>\<open>04d\<close>\<close>

text \<open>
  A Python text is modelled by its UTF-8 encoding: a \<open>string\<close> of bytes. Two texts are
  equal exactly when their encodings are.

  \<^verbatim>\<open>str.upper\<close> is used once, on line 95, where its result is compared with
  \<^verbatim>\<open>"CALIBRATE"\<close>. On ASCII it moves a letter \<open>a\<close>..\<open>z\<close> down by 32 and keeps every other
  character. Of the code points beyond ASCII exactly one has an upper case made of letters
  of CALIBRATE: U+0131, the dotless i (bytes C4 B1), whose upper case is \<open>I\<close>. The model
  is exact on ASCII and on U+0131. It leaves the bytes of every other code point as they
  are; Python may change them, but always into a text that has a non-ASCII code point or
  one of the letters F and S (nine of them have a pure ASCII upper case: SS, S, FF, FI,
  FL, FFI, FFL, ST, ST), so the comparison of line 95 has the same outcome.
\<close>

definition upper_char :: "char \<Rightarrow> char" where
  "upper_char c =
     (let n = (of_char c :: nat) in if 97 \<le> n \<and> n \<le> 122 then char_of (n - 32) else c)"

fun upper :: "string \<Rightarrow> string" where
  "upper [] = []"
| "upper [c] = [upper_char c]"
| "upper (c # d # ds) =
     (if c = CHR 0xC4 \<and> d = CHR 0xB1 then CHR ''I'' # upper ds
      else upper_char c # upper (d # ds))"

text \<open>\<^verbatim>\<open>f"{n:04d}"\<close>: the decimal digits of \<open>n\<close>, padded with zeros on the left to
  four characters. The counter starts at 1 and is only ever incremented, so it is a
  natural number and no sign is printed.\<close>

definition digit_char :: "nat \<Rightarrow> char" where
  "digit_char d = char_of (48 + d)"

fun decimal :: "nat \<Rightarrow> string" where
  "decimal n = (if n < 10 then [digit_char n] else decimal (n div 10) @ [digit_char (n mod 10)])"

declare decimal.simps [simp del]

definition format_04d :: "nat \<Rightarrow> string" where
  "format_04d n = replicate (4 - length (decimal n)) (CHR ''0'') @ decimal n"

subsection \<open>perform_action and its completion\<close>

definition perform_action :: "env \<Rightarrow> PerformActionCmd \<Rightarrow> sim \<Rightarrow> response \<times> sim" where
  "perform_action e cmd s =
     (let t_begin = now_ts (clock e)
      in (JSONResponse 202 [(''accepted'', B True)],
          s\<lparr>tasks := tasks s @ [Complete cmd t_begin]\<rparr>))"

text \<open>The part of \<^verbatim>\<open>complete()\<close> after its sleep. \<^verbatim>\<open>if msg:\<close> is the truth value of
  an optional text: set and not empty.\<close>

definition complete_payload :: "env \<Rightarrow> PerformActionCmd \<Rightarrow> int \<Rightarrow> payload" where
  "complete_payload e cmd t_begin =
     (let t_end = now_ts (clock e);
          (status, msg) =
            (if upper (actionName cmd) = ''CALIBRATE''
             then (''ACTION_FAILURE'', Some ''Calibration target not found'')
             else (''ACTION_SUCCESS'', None));
          payload = [(''actionName'', S (actionName cmd)),
                     (''actionStatus'', S status),
                     (''timeBegin'', T t_begin),
                     (''timeEnd'', T t_end)]
      in (case msg of
            Some m \<Rightarrow> if m \<noteq> [] then payload @ [(''statusMsg'', S m)] else payload
          | None \<Rightarrow> payload))"

definition complete :: "env \<Rightarrow> PerformActionCmd \<Rightarrow> int \<Rightarrow> sim \<Rightarrow> sim" where
  "complete e cmd t_begin s =
     emit ''InstrumentActionCompletion'' (complete_payload e cmd t_begin) s"

subsection \<open>start_activity and its background task\<close>

definition set_obj :: "nat \<Rightarrow> (ActivityState \<Rightarrow> ActivityState) \<Rightarrow> sim \<Rightarrow> sim" where
  "set_obj a f s = s\<lparr>objects := (objects s)[a := f (objects s ! a)]\<rparr>"

definition status_change :: "ActivityState \<Rightarrow> payload" where
  "status_change st =
     [(''activityId'', S (activityId st)),
      (''activityName'', S (activityName st)),
      (''activityStatus'', S (status st))]"

text \<open>The payload of the two places that add the key \<^verbatim>\<open>statusMsg\<close> whatever it holds
  (a \<^verbatim>\<open>None\<close> cannot occur there: both have just assigned a text).\<close>

definition status_change_msg :: "ActivityState \<Rightarrow> payload" where
  "status_change_msg st =
     status_change st @ [(''statusMsg'', S (case statusMsg st of Some m \<Rightarrow> m | None \<Rightarrow> []))]"

text \<open>
  The deadline block of \<^verbatim>\<open>start_activity\<close>: \<^verbatim>\<open>deadline_dt\<close> stays \<^verbatim>\<open>None\<close> when the
  request has no deadline or an empty one (\<^verbatim>\<open>if req.activityDeadline:\<close>); otherwise
  \<^verbatim>\<open>isoparse\<close> gives the instant or raises, and \<open>Inl\<close> carries the text of the
  exception.
\<close>

definition parse_deadline ::
  "parser \<Rightarrow> StartActivityReq \<Rightarrow> string + datetime option" where
  "parse_deadline isoparse req =
     (case activityDeadline req of
        None \<Rightarrow> Inr None
      | Some d \<Rightarrow>
          if d = [] then Inr None
          else (case isoparse d of
                  Inl ex \<Rightarrow> Inl ex
                | Inr dt \<Rightarrow> Inr (Some dt)))"

definition start_activity ::
  "parser \<Rightarrow> env \<Rightarrow> StartActivityReq \<Rightarrow> sim \<Rightarrow> response \<times> sim" where
  "start_activity isoparse e req s =
     (if req_activityName req \<notin> set ACTIVITIES
      then (JSONResponse 200
              [(''activityId'', S []),
               (''errorMsg'', S (''Unknown activityName: '' @ req_activityName req))], s)
      else
        let activity_id = ''act_'' @ format_04d (next_activity_num s);
            s1 = s\<lparr>next_activity_num := next_activity_num s + 1\<rparr>
        in case parse_deadline isoparse req of
             Inl ex \<Rightarrow>
               (JSONResponse 200
                  [(''activityId'', S []),
                   (''errorMsg'', S (''Invalid activityDeadline: '' @ ex))], s1)
           | Inr deadline_dt \<Rightarrow>
               let st = \<lparr>activityId = activity_id,
                         activityName = req_activityName req,
                         status = ''ACTIVITY_PENDING'',
                         timeBegin = now_ts (clock e),
                         timeEnd = None,
                         statusMsg = None,
                         products = [],
                         deadline = deadline_dt\<rparr>;
                   a = length (objects s1);
                   s2 = s1\<lparr>objects := objects s1 @ [st],
                           activities := (activities s1)(activity_id \<mapsto> a)\<rparr>;
                   s3 = emit ''InstrumentActivityStatusChange'' (status_change st) s2;
                   s4 = s3\<lparr>tasks := tasks s3 @ [Run1 a]\<rparr>
               in (JSONResponse 200 [(''activityId'', S (activityId st))], s4))"

text \<open>\<^verbatim>\<open>run()\<close> between its first and its second sleep.\<close>

definition run_first :: "nat \<Rightarrow> sim \<Rightarrow> sim" where
  "run_first a s =
     (let s1 = set_obj a (\<lambda>st. st\<lparr>status := ''ACTIVITY_IN_PROGRESS''\<rparr>) s
      in emit ''InstrumentActivityStatusChange'' (status_change (objects s1 ! a)) s1)"

text \<open>
  \<^verbatim>\<open>run()\<close> after its second sleep. The test of line 151 is
  \<^verbatim>\<open>st.deadline and datetime.now(timezone.utc) > st.deadline.astimezone(timezone.utc)\<close>.
  A \<^verbatim>\<open>datetime\<close> is always truthy, so with no deadline the test is false; with a
  deadline the conversion runs, and either raises (\<open>Inl\<close>) or gives the instant the clock
  is compared with.
\<close>

definition deadline_exceeded :: "env \<Rightarrow> ActivityState \<Rightarrow> string + bool" where
  "deadline_exceeded e st =
     (case deadline st of
        None \<Rightarrow> Inr False
      | Some d \<Rightarrow>
          (case astimezone_utc d of
             Inl ex \<Rightarrow> Inl ex
           | Inr t \<Rightarrow> Inr (clock e > t)))"

text \<open>
  Nothing in \<^verbatim>\<open>run()\<close> catches the exception of the conversion: it ends the task, and
  the record, the queue and the registry stay as they were. Otherwise the step cancels or
  completes. It reads the clock for the comparison and again for \<^verbatim>\<open>timeEnd\<close>, with no
  suspension in between; the model uses one reading for both.
\<close>

definition run_second :: "env \<Rightarrow> nat \<Rightarrow> sim \<Rightarrow> sim" where
  "run_second e a s =
     (case deadline_exceeded e (objects s ! a) of
        Inl ex \<Rightarrow> s
      | Inr True \<Rightarrow>
          (let s1 = set_obj a (\<lambda>st. st\<lparr>status := ''ACTIVITY_CANCELED'',
                                      statusMsg := Some ''Deadline exceeded'',
                                      timeEnd := Some (now_ts (clock e))\<rparr>) s
           in emit ''InstrumentActivityStatusChange'' (status_change_msg (objects s1 ! a)) s1)
      | Inr False \<Rightarrow>
          (let s1 = set_obj a (\<lambda>st. st\<lparr>status := ''ACTIVITY_COMPLETED'',
                                      timeEnd := Some (now_ts (clock e)),
                                      products := [uuid_a e, uuid_b e]\<rparr>) s
           in emit ''InstrumentActivityStatusChange'' (status_change (objects s1 ! a)) s1))"

subsection \<open>cancel_activity and the two queries\<close>

definition cancel_activity :: "env \<Rightarrow> CancelActivityCmd \<Rightarrow> sim \<Rightarrow> response \<times> sim" where
  "cancel_activity e cmd s =
     (case activities s (cmd_activityId cmd) of
        None \<Rightarrow> (HTTPException 404 ''Unknown activityId'', s)
      | Some a \<Rightarrow>
          let s1 = set_obj a (\<lambda>st. st\<lparr>status := ''ACTIVITY_CANCELED'',
                                      timeEnd := Some (now_ts (clock e)),
                                      statusMsg := Some (reason cmd)\<rparr>) s;
              s2 = emit ''InstrumentActivityStatusChange'' (status_change_msg (objects s1 ! a)) s1
          in (JSONResponse 202 [(''accepted'', B True)], s2))"


definition get_activity_data :: "string \<Rightarrow> sim \<Rightarrow> response" where
  "get_activity_data activity_id s =
     (case activities s activity_id of
        None \<Rightarrow> HTTPException 404 ''Unknown activityId''
      | Some a \<Rightarrow>
          let st = objects s ! a
          in if status st \<noteq> ''ACTIVITY_COMPLETED''
             then JSONResponse 200 [(''products'', L []), (''errorMsg'', S ''Data not ready'')]
             else JSONResponse 200 [(''products'', L (products st))])"

subsection \<open>The scheduler and the runs of the simulator\<close>

text \<open>
  \<open>fire e k\<close> wakes the \<open>k\<close>-th pending task from its sleep and runs it to its next
  sleep or to its end. The model lets any pending task wake at any moment; the real
  scheduler wakes each one when its delay has passed, so every real run is a run of the
  model.
\<close>

definition fire :: "env \<Rightarrow> nat \<Rightarrow> sim \<Rightarrow> sim" where
  "fire e k s =
     (if k < length (tasks s) then
        (case tasks s ! k of
           Complete cmd t_begin \<Rightarrow>
             complete e cmd t_begin (s\<lparr>tasks := take k (tasks s) @ drop (Suc k) (tasks s)\<rparr>)
         | Run1 a \<Rightarrow> run_first a (s\<lparr>tasks := (tasks s)[k := Run2 a]\<rparr>)
         | Run2 a \<Rightarrow>
             run_second e a (s\<lparr>tasks := take k (tasks s) @ drop (Suc k) (tasks s)\<rparr>))
      else s)"

datatype op =
    PerformAction PerformActionCmd
  | StartActivity StartActivityReq
  | CancelActivity CancelActivityCmd
  | GetStatus string
  | GetData string
  | Fire nat

fun exec :: "parser \<Rightarrow> env \<times> op \<Rightarrow> sim \<Rightarrow> sim" where
  "exec isoparse (e, PerformAction cmd) s = snd (perform_action e cmd s)"
| "exec isoparse (e, StartActivity req) s = snd (start_activity isoparse e req s)"
| "exec isoparse (e, CancelActivity cmd) s = snd (cancel_activity e cmd s)"
| "exec isoparse (e, GetStatus i) s = s"
| "exec isoparse (e, GetData i) s = s"
| "exec isoparse (e, Fire k) s = fire e k s"

fun run_ops :: "parser \<Rightarrow> (env \<times> op) list \<Rightarrow> sim \<Rightarrow> sim" where
  "run_ops isoparse [] s = s"
| "run_ops isoparse (x # xs) s = run_ops isoparse xs (exec isoparse x s)"

inductive reachable :: "parser \<Rightarrow> sim \<Rightarrow> bool"
  for isoparse :: parser where
  reachable_init: "reachable isoparse init"
| reachable_exec: "reachable isoparse s \<Longrightarrow> reachable isoparse (exec isoparse x s)"

subsection \<open>Reading a response\<close>

definition status_code :: "response \<Rightarrow> nat" where
  "status_code r = (case r of HTTPException c d \<Rightarrow> c | JSONResponse c p \<Rightarrow> c)"

definition body :: "response \<Rightarrow> string \<rightharpoonup> jval" where
  "body r = (case r of HTTPException c d \<Rightarrow> Map.empty | JSONResponse c p \<Rightarrow> map_of p)"

text \<open>The record an id is registered to, as \<^verbatim>\<open>_activities.get\<close> gives it.\<close>

definition lookup :: "sim \<Rightarrow> string \<Rightarrow> ActivityState option" where
  "lookup s i = map_option (\<lambda>a. objects s ! a) (activities s i)"

subsection \<open>Notions of the specification\<close>

definition terminal :: "string \<Rightarrow> bool" where
  "terminal st = (st = ''ACTIVITY_COMPLETED'' \<or> st = ''ACTIVITY_CANCELED'')"

text \<open>
  Equality of two texts up to the case of their letters, stated without \<open>upper\<close>: the
  texts have the same length and, position by position, the same character or the two
  cases of one letter.
\<close>

definition eq_ignore_case_char :: "char \<Rightarrow> char \<Rightarrow> bool" where
  "eq_ignore_case_char c d =
     (let pairs = zip ''ABCDEFGHIJKLMNOPQRSTUVWXYZ'' ''abcdefghijklmnopqrstuvwxyz''
      in c = d \<or> (c, d) \<in> set pairs \<or> (d, c) \<in> set pairs)"

definition eq_ignore_case :: "string \<Rightarrow> string \<Rightarrow> bool" where
  "eq_ignore_case a b = list_all2 eq_ignore_case_char a b"

text \<open>The same with the dotless i counted as an i: every U+0131 (bytes C4 B1) is read
  as the letter \<open>i\<close> first.\<close>

fun dotless_to_i :: "string \<Rightarrow> string" where
  "dotless_to_i [] = []"
| "dotless_to_i [c] = [c]"
| "dotless_to_i (c # d # ds) =
     (if c = CHR 0xC4 \<and> d = CHR 0xB1 then CHR ''i'' # dotless_to_i ds
      else c # dotless_to_i (d # ds))"

text \<open>The number a text of decimal digits denotes, leading zeros allowed.\<close>

definition is_digit :: "char \<Rightarrow> bool" where
  "is_digit c = (48 \<le> (of_char c :: nat) \<and> (of_char c :: nat) \<le> 57)"

definition digits_value :: "string \<Rightarrow> nat" where
  "digits_value ds = foldl (\<lambda>v c. 10 * v + ((of_char c :: nat) - 48)) 0 ds"

text \<open>An id of the form \<^verbatim>\<open>act_\<close> followed by at least four digits.\<close>

definition is_activity_id :: "string \<Rightarrow> bool" where
  "is_activity_id i =
     (take 4 i = ''act_'' \<and> 4 \<le> length (drop 4 i) \<and> list_all is_digit (drop 4 i))"

definition id_number :: "string \<Rightarrow> nat" where
  "id_number i = digits_value (drop 4 i)"

text \<open>The id a response to \<^verbatim>\<open>start_activity\<close> carries.\<close>

definition returned_id :: "response \<Rightarrow> string" where
  "returned_id r = (case body r ''activityId'' of Some (S i) \<Rightarrow> i | _ \<Rightarrow> [])"

subsection \<open>Invariants of the reachable states\<close>

fun task_addr :: "task \<Rightarrow> nat list" where
  "task_addr (Complete cmd t) = []"
| "task_addr (Run1 a) = [a]"
| "task_addr (Run2 a) = [a]"

definition run_addrs :: "task list \<Rightarrow> nat list" where
  "run_addrs ts = concat (map task_addr ts)"

text \<open>The record has a deadline whose conversion to UTC raises.\<close>

definition deadline_raises :: "ActivityState \<Rightarrow> bool" where
  "deadline_raises st =
     (case deadline st of
        None \<Rightarrow> False
      | Some d \<Rightarrow> (case astimezone_utc d of Inl ex \<Rightarrow> True | Inr t \<Rightarrow> False))"

text \<open>What holds of the record at address \<open>a\<close>, given the pending tasks.\<close>

definition obj_ok :: "task list \<Rightarrow> nat \<Rightarrow> ActivityState \<Rightarrow> bool" where
  "obj_ok ts a st =
     ((Run1 a \<in> set ts \<longrightarrow>
         (status st = ''ACTIVITY_PENDING'' \<or> status st = ''ACTIVITY_CANCELED'') \<and>
         products st = []) \<and>
      (Run2 a \<in> set ts \<longrightarrow>
         (status st = ''ACTIVITY_IN_PROGRESS'' \<or> status st = ''ACTIVITY_CANCELED'') \<and>
         products st = []) \<and>
      (a \<notin> set (run_addrs ts) \<longrightarrow>
         terminal (status st) \<or>
         status st = ''ACTIVITY_IN_PROGRESS'' \<and> deadline_raises st) \<and>
      (status st = ''ACTIVITY_COMPLETED'' \<longrightarrow> length (products st) = 2) \<and>
      (products st \<noteq> [] \<longrightarrow> terminal (status st) \<and> length (products st) = 2) \<and>
      (timeEnd st \<noteq> None \<longleftrightarrow>
         status st = ''ACTIVITY_COMPLETED'' \<or> statusMsg st \<noteq> None) \<and>
      (status st = ''ACTIVITY_CANCELED'' \<longrightarrow> statusMsg st \<noteq> None) \<and>
      (status st = ''ACTIVITY_PENDING'' \<longrightarrow> statusMsg st = None))"

definition tasks_ok :: "sim \<Rightarrow> bool" where
  "tasks_ok s =
     (distinct (run_addrs (tasks s)) \<and>
      (\<forall>a \<in> set (run_addrs (tasks s)). a < length (objects s)))"

definition registry_ok :: "sim \<Rightarrow> bool" where
  "registry_ok s =
     ((\<forall>i a. activities s i = Some a \<longrightarrow>
         a < length (objects s) \<and> activityId (objects s ! a) = i) \<and>
      (\<forall>a < length (objects s). activities s (activityId (objects s ! a)) = Some a))"

definition ids_below :: "sim \<Rightarrow> bool" where
  "ids_below s =
     (\<forall>i \<in> dom (activities s). \<exists>n < next_activity_num s. i = ''act_'' @ format_04d n)"

definition objs_ok :: "sim \<Rightarrow> bool" where
  "objs_ok s = (\<forall>a < length (objects s). obj_ok (tasks s) a (objects s ! a))"

definition inv :: "sim \<Rightarrow> bool" where
  "inv s = (tasks_ok s \<and> registry_ok s \<and> ids_below s \<and> objs_ok s)"

text \<open>The record \<^verbatim>\<open>start_activity\<close> creates: the constructor call of its line 129,
  with the defaults of the dataclass.\<close>

definition new_state :: "env \<Rightarrow> StartActivityReq \<Rightarrow> datetime option \<Rightarrow> sim \<Rightarrow> ActivityState" where
  "new_state e req dl s =
     \<lparr>activityId = ''act_'' @ format_04d (next_activity_num s),
      activityName = req_activityName req,
      status = ''ACTIVITY_PENDING'',
      timeBegin = now_ts (clock e),
      timeEnd = None, statusMsg = None, products = [], deadline = dl\<rparr>"

subsection \<open>Example inputs and runs\<close>

text \<open>
  Concrete inputs on which the theorems below are exercised: a parser that knows two
  date-time texts and rejects every other (the second is the last second of the year 9999
  at offset -14:00, which parses and cannot be converted to UTC), a clock reading in
  November 2023, requests that start (with no deadline, with a deadline in 2020, with the
  deadline that cannot be converted), one with a deadline that does not parse, one with
  an unknown name, and action commands, one of them named "cal" + U+0131 + "brate".
\<close>

definition isoparse_ex :: parser where
  "isoparse_ex d =
     (if d = ''2020-01-01T00:00:00Z'' then Inr (Instant 1577836800000000)
      else if d = ''9999-12-31T23:59:59-14:00''
      then Inr (Unconvertible ''date value out of range'')
      else Inl ''ISO string too short'')"

definition env_ex :: env where
  "env_ex = \<lparr>clock = 1700000000000000, uuid_a = ''5f0c'', uuid_b = ''9ab1''\<rparr>"

definition req_build :: StartActivityReq where
  "req_build = \<lparr>req_activityName = ''BUILD'', activityOptions = None,
                 activityDeadline = None\<rparr>"

definition req_past :: StartActivityReq where
  "req_past = \<lparr>req_activityName = ''SCAN'', activityOptions = None,
                activityDeadline = Some ''2020-01-01T00:00:00Z''\<rparr>"

definition req_far :: StartActivityReq where
  "req_far = \<lparr>req_activityName = ''BUILD'', activityOptions = None,
               activityDeadline = Some ''9999-12-31T23:59:59-14:00''\<rparr>"



definition cmd_cancel :: CancelActivityCmd where
  "cmd_cancel = \<lparr>cmd_activityId = ''act_0001'', reason = ''operator stop''\<rparr>"

definition cmd_calibrate :: PerformActionCmd where
  "cmd_calibrate = \<lparr>actionName = ''Calibrate'', actionOptions = None\<rparr>"

definition cmd_dotless :: PerformActionCmd where
  "cmd_dotless = \<lparr>actionName = ''cal'' @ [CHR 0xC4, CHR 0xB1] @ ''brate'',
                   actionOptions = None\<rparr>"

definition cmd_home :: PerformActionCmd where
  "cmd_home = \<lparr>actionName = ''HOME'', actionOptions = None\<rparr>"

text \<open>One activity started; the same after both timers; the same canceled at once.\<close>

definition s_started :: sim where
  "s_started = run_ops isoparse_ex [(env_ex, StartActivity req_build)] init"

definition s_in_progress :: sim where
  "s_in_progress = run_ops isoparse_ex [(env_ex, Fire 0)] s_started"

definition s_completed :: sim where
  "s_completed = run_ops isoparse_ex [(env_ex, Fire 0)] s_in_progress"

definition s_canceled :: sim where
  "s_canceled = run_ops isoparse_ex [(env_ex, CancelActivity cmd_cancel)] s_started"

text \<open>An activity with a deadline in the past, after its first timer.\<close>

definition s_past :: sim where
  "s_past = run_ops isoparse_ex [(env_ex, StartActivity req_past), (env_ex, Fire 0)] init"

text \<open>An activity whose deadline cannot be converted, after its first timer.\<close>

definition s_far :: sim where
  "s_far = run_ops isoparse_ex [(env_ex, StartActivity req_far), (env_ex, Fire 0)] init"

text \<open>An environment whose two uuid4 calls return the same value.\<close>

definition env_same :: env where
  "env_same = \<lparr>clock = 1700000000000000, uuid_a = ''5f0c'', uuid_b = ''5f0c''\<rparr>"

text \<open>Runs in which a cancel command and the timers meet: a cancel within the first
  200 ms and then the first timer; a cancel between the two timers; a cancel after
  completion.\<close>

definition s_canceled_then_first :: sim where
  "s_canceled_then_first = run_ops isoparse_ex [(env_ex, Fire 0)] s_canceled"

definition s_canceled_between :: sim where
  "s_canceled_between = run_ops isoparse_ex [(env_ex, CancelActivity cmd_cancel)] s_in_progress"

definition s_canceled_after :: sim where
  "s_canceled_after = run_ops isoparse_ex [(env_ex, CancelActivity cmd_cancel)] s_completed"

subsection \<open>Completions, counted and traced\<close>

text \<open>
  The completion events in the queue, the completion tasks still pending, and the
  \<^verbatim>\<open>perform_action\<close> calls of a run.
\<close>

definition completion_events :: "sim \<Rightarrow> nat" where
  "completion_events s =
     length (filter (\<lambda>ev. eventName ev = ''InstrumentActionCompletion'') (event_queue s))"

fun is_completion :: "task \<Rightarrow> bool" where
  "is_completion (Complete cmd t) = True"
| "is_completion (Run1 a) = False"
| "is_completion (Run2 a) = False"

definition pending_completions :: "sim \<Rightarrow> nat" where
  "pending_completions s = length (filter is_completion (tasks s))"

fun is_perform :: "env \<times> op \<Rightarrow> bool" where
  "is_perform (e, PerformAction cmd) = True"
| "is_perform (e, StartActivity req) = False"
| "is_perform (e, CancelActivity cmd) = False"
| "is_perform (e, GetStatus i) = False"
| "is_perform (e, GetData i) = False"
| "is_perform (e, Fire k) = False"

definition performed :: "(env \<times> op) list \<Rightarrow> nat" where
  "performed xs = length (filter is_perform xs)"

text \<open>
  The products of the record at an address, empty while the address is not allocated;
  a step that completes the record at \<open>a\<close> (the second timer of \<open>a\<close> fires and takes
  the branch of lines 163 to 171); a run that has such a step.
\<close>

definition products_at :: "sim \<Rightarrow> nat \<Rightarrow> string list" where
  "products_at s a = (if a < length (objects s) then products (objects s ! a) else [])"

fun completes :: "env \<times> op \<Rightarrow> sim \<Rightarrow> nat \<Rightarrow> bool" where
  "completes (e, Fire k) s a =
     (k < length (tasks s) \<and> tasks s ! k = Run2 a \<and>
      deadline_exceeded e (objects s ! a) = Inr False)"
| "completes (e, PerformAction cmd) s a = False"
| "completes (e, StartActivity req) s a = False"
| "completes (e, CancelActivity cmd) s a = False"
| "completes (e, GetStatus i) s a = False"
| "completes (e, GetData i) s a = False"

fun completed_in :: "parser \<Rightarrow> (env \<times> op) list \<Rightarrow> sim \<Rightarrow> nat \<Rightarrow> bool" where
  "completed_in isoparse [] s a = False"
| "completed_in isoparse (x # xs) s a =
     (completes x s a \<or> completed_in isoparse xs (exec isoparse x s) a)"

subsection \<open>A record whose task has ended\<close>


section \<open>Basic facts\<close>

lemma emit_fields [simp]:
  "objects (emit n d s) = objects s"
  "tasks (emit n d s) = tasks s"
  "activities (emit n d s) = activities s"
  "next_activity_num (emit n d s) = next_activity_num s"
  "event_queue (emit n d s) = event_queue s @ [\<lparr>eventName = n, eventData = d\<rparr>]"
  by (simp_all add: emit_def)

lemma set_obj_fields [simp]:
  "objects (set_obj a f s) = (objects s)[a := f (objects s ! a)]"
  "tasks (set_obj a f s) = tasks s"
  "activities (set_obj a f s) = activities s"
  "next_activity_num (set_obj a f s) = next_activity_num s"
  "event_queue (set_obj a f s) = event_queue s"
  by (simp_all add: set_obj_def)

lemma run_addrs_simps [simp]:
  "run_addrs [] = []"
  "run_addrs (t # ts) = task_addr t @ run_addrs ts"
  "run_addrs (ts @ us) = run_addrs ts @ run_addrs us"
  by (simp_all add: run_addrs_def)

lemma Run_in_addrs:
  "Run1 a \<in> set ts \<Longrightarrow> a \<in> set (run_addrs ts)"
  "Run2 a \<in> set ts \<Longrightarrow> a \<in> set (run_addrs ts)"
  by (force simp: run_addrs_def)+

lemma in_addrs_Run: "a \<in> set (run_addrs ts) \<Longrightarrow> Run1 a \<in> set ts \<or> Run2 a \<in> set ts"
proof -
  assume "a \<in> set (run_addrs ts)"
  then obtain t where t: "t \<in> set ts" "a \<in> set (task_addr t)"
    by (auto simp: run_addrs_def)
  show ?thesis by (cases t) (use t in auto)
qed

lemma nth_split:
  assumes "k < length ts"
  obtains pre post where "ts = pre @ ts ! k # post" "take k ts = pre" "drop (Suc k) ts = post"
    "\<And>x. ts[k := x] = pre @ x # post"
proof -
  have "ts = take k ts @ ts ! k # drop (Suc k) ts"
    using assms by (rule id_take_nth_drop)
  moreover have "\<And>x. ts[k := x] = take k ts @ x # drop (Suc k) ts"
    using assms by (rule upd_conv_take_nth_drop)
  ultimately show ?thesis using that by blast
qed

text \<open>The three outcomes of \<^verbatim>\<open>start_activity\<close>.\<close>

lemma start_activity_unknown:
  "req_activityName req \<notin> set ACTIVITIES \<Longrightarrow>
   start_activity P e req s =
     (JSONResponse 200 [(''activityId'', S []),
        (''errorMsg'', S (''Unknown activityName: '' @ req_activityName req))], s)"
  by (simp add: start_activity_def)

lemma start_activity_invalid:
  "req_activityName req \<in> set ACTIVITIES \<Longrightarrow> parse_deadline P req = Inl ex \<Longrightarrow>
   start_activity P e req s =
     (JSONResponse 200 [(''activityId'', S []),
        (''errorMsg'', S (''Invalid activityDeadline: '' @ ex))],
      s\<lparr>next_activity_num := next_activity_num s + 1\<rparr>)"
  by (simp add: start_activity_def)

lemma start_activity_ok:
  "req_activityName req \<in> set ACTIVITIES \<Longrightarrow> parse_deadline P req = Inr dl \<Longrightarrow>
   start_activity P e req s =
     (JSONResponse 200 [(''activityId'', S (''act_'' @ format_04d (next_activity_num s)))],
      \<lparr>activities = (activities s)(''act_'' @ format_04d (next_activity_num s) \<mapsto> length (objects s)),
       objects = objects s @ [new_state e req dl s],
       next_activity_num = next_activity_num s + 1,
       event_queue = event_queue s @
         [\<lparr>eventName = ''InstrumentActivityStatusChange'',
           eventData = status_change (new_state e req dl s)\<rparr>],
       tasks = tasks s @ [Run1 (length (objects s))]\<rparr>)"
  by (simp add: start_activity_def Let_def emit_def new_state_def)

lemma of_char_digit_char: "d < 10 \<Longrightarrow> (of_char (digit_char d) :: nat) = 48 + d"
  by (simp add: digit_char_def take_bit_eq_mod)

lemma digits_value_snoc:
  "digits_value (ds @ [c]) = 10 * digits_value ds + ((of_char c :: nat) - 48)"
  by (simp add: digits_value_def)

lemma digits_value_decimal: "digits_value (decimal n) = n"
proof (induction n rule: decimal.induct)
  case (1 n)
  show ?case
  proof (cases "n < 10")
    case True
    then show ?thesis
      by (subst decimal.simps) (simp add: digits_value_def of_char_digit_char)
  next
    case False
    then have "digits_value (decimal (n div 10)) = n div 10"
      using "1" by simp
    with False show ?thesis
      by (subst decimal.simps) (simp add: digits_value_snoc of_char_digit_char)
  qed
qed

lemma digits_value_zeros: "digits_value (replicate k (CHR ''0'') @ ds) = digits_value ds"
proof -
  have "foldl (\<lambda>v c. 10 * v + ((of_char c :: nat) - 48)) 0 (replicate k (CHR ''0'')) = 0"
    by (induction k) simp_all
  then show ?thesis
    by (simp add: digits_value_def)
qed

lemma digits_value_format_04d: "digits_value (format_04d n) = n"
  by (simp add: format_04d_def digits_value_zeros digits_value_decimal)

lemma format_04d_inj: "format_04d m = format_04d n \<Longrightarrow> m = n"
  by (metis digits_value_format_04d)

lemma is_digit_digit_char: "d < 10 \<Longrightarrow> is_digit (digit_char d)"
  by (simp add: is_digit_def of_char_digit_char)

lemma decimal_digits: "list_all is_digit (decimal n)"
proof (induction n rule: decimal.induct)
  case (1 n)
  show ?case
  proof (cases "n < 10")
    case True
    then show ?thesis
      by (subst decimal.simps) (simp add: is_digit_digit_char)
  next
    case False
    then have "list_all is_digit (decimal (n div 10))"
      using "1" by simp
    with False show ?thesis
      by (subst decimal.simps) (simp add: is_digit_digit_char)
  qed
qed

lemma format_04d_digits: "list_all is_digit (format_04d n)"
  using decimal_digits [of n] by (auto simp: format_04d_def list_all_iff is_digit_def)

lemma format_04d_length: "4 \<le> length (format_04d n)"
  by (simp add: format_04d_def)

lemma inv_init: "inv init"
  by (simp add: inv_def tasks_ok_def registry_ok_def ids_below_def objs_ok_def init_def)

subsection \<open>Preservation of the invariant, part by part\<close>

lemma tasks_ok_cong:
  "tasks s' = tasks s \<Longrightarrow> length (objects s') = length (objects s) \<Longrightarrow> tasks_ok s' = tasks_ok s"
  by (simp add: tasks_ok_def)

lemma tasks_ok_remove:
  assumes "tasks_ok s" "tasks s = pre @ t # post" "tasks s' = pre @ post"
    "length (objects s') = length (objects s)"
  shows "tasks_ok s'"
  using assms by (auto simp: tasks_ok_def)

lemma tasks_ok_step:
  assumes "tasks_ok s" "tasks s = pre @ Run1 a # post" "tasks s' = pre @ Run2 a # post"
    "length (objects s') = length (objects s)"
  shows "tasks_ok s'"
  using assms by (auto simp: tasks_ok_def)

lemma tasks_ok_add_Complete:
  assumes "tasks_ok s" "tasks s' = tasks s @ [Complete c t]"
    "length (objects s') = length (objects s)"
  shows "tasks_ok s'"
  using assms by (auto simp: tasks_ok_def)

lemma tasks_ok_add_Run1:
  assumes "tasks_ok s" "tasks s' = tasks s @ [Run1 (length (objects s))]"
    "length (objects s') = Suc (length (objects s))"
  shows "tasks_ok s'"
  using assms by (auto simp: tasks_ok_def less_Suc_eq)

lemma registry_ok_same_ids:
  assumes "registry_ok s" "activities s' = activities s"
    "length (objects s') = length (objects s)"
    "\<And>a. a < length (objects s) \<Longrightarrow> activityId (objects s' ! a) = activityId (objects s ! a)"
  shows "registry_ok s'"
  using assms by (auto simp: registry_ok_def)

lemma ids_below_mono:
  assumes "ids_below s" "activities s' = activities s" "next_activity_num s \<le> next_activity_num s'"
  shows "ids_below s'"
  unfolding ids_below_def
proof
  fix i assume "i \<in> dom (activities s')"
  then obtain n where "n < next_activity_num s" "i = ''act_'' @ format_04d n"
    using assms(1,2) unfolding ids_below_def by auto
  then show "\<exists>n<next_activity_num s'. i = ''act_'' @ format_04d n"
    using assms(3) by (intro exI [of _ n]) simp
qed

lemma new_id_fresh:
  assumes "ids_below s"
  shows "activities s (''act_'' @ format_04d (next_activity_num s)) = None"
proof (rule ccontr)
  assume "activities s (''act_'' @ format_04d (next_activity_num s)) \<noteq> None"
  then have "''act_'' @ format_04d (next_activity_num s) \<in> dom (activities s)"
    by auto
  with assms obtain n where "n < next_activity_num s"
    "''act_'' @ format_04d (next_activity_num s) = ''act_'' @ format_04d n"
    unfolding ids_below_def by blast
  then show False
    using format_04d_inj by fastforce
qed

lemma ids_below_add:
  assumes "ids_below s"
    "activities s' = (activities s)(''act_'' @ format_04d (next_activity_num s) \<mapsto> a)"
    "next_activity_num s' = next_activity_num s + 1"
  shows "ids_below s'"
  unfolding ids_below_def
proof
  fix i assume i: "i \<in> dom (activities s')"
  show "\<exists>n<next_activity_num s'. i = ''act_'' @ format_04d n"
  proof (cases "i = ''act_'' @ format_04d (next_activity_num s)")
    case True
    then show ?thesis using assms(3) by (intro exI [of _ "next_activity_num s"]) simp
  next
    case False
    then have "i \<in> dom (activities s)" using i assms(2) by auto
    then obtain n where "n < next_activity_num s" "i = ''act_'' @ format_04d n"
      using assms(1) unfolding ids_below_def by auto
    then show ?thesis using assms(3) by (intro exI [of _ n]) simp
  qed
qed

lemma registry_ok_add:
  assumes r: "registry_ok s" and fresh: "activities s i = None"
    and acts: "activities s' = (activities s)(i \<mapsto> length (objects s))"
    and objs: "objects s' = objects s @ [st]" and st: "activityId st = i"
  shows "registry_ok s'"
proof -
  have r1: "\<And>j a. activities s j = Some a \<Longrightarrow>
      a < length (objects s) \<and> activityId (objects s ! a) = j"
    using r unfolding registry_ok_def by blast
  have r2: "\<And>a. a < length (objects s) \<Longrightarrow> activities s (activityId (objects s ! a)) = Some a"
    using r unfolding registry_ok_def by blast
  have len: "length (objects s') = Suc (length (objects s))"
    by (simp add: objs)
  have last: "objects s' ! length (objects s) = st"
    by (simp add: objs)
  have old: "\<And>a. a < length (objects s) \<Longrightarrow> objects s' ! a = objects s ! a"
    by (simp add: objs nth_append)
  have p1: "a < length (objects s') \<and> activityId (objects s' ! a) = j"
    if h: "activities s' j = Some a" for j a
  proof (cases "j = i")
    case True
    then have "a = length (objects s)" using h by (simp add: acts)
    then show ?thesis using True st by (simp add: len last)
  next
    case False
    then have "activities s j = Some a" using h by (simp add: acts)
    then have "a < length (objects s)" "activityId (objects s ! a) = j"
      using r1 by blast+
    then show ?thesis by (simp add: len old)
  qed
  have p2: "activities s' (activityId (objects s' ! a)) = Some a"
    if h: "a < length (objects s')" for a
  proof (cases "a = length (objects s)")
    case True
    then show ?thesis by (simp add: last st acts)
  next
    case False
    then have a: "a < length (objects s)" using h len by simp
    then have g: "activities s (activityId (objects s ! a)) = Some a" by (rule r2)
    then have "activityId (objects s ! a) \<noteq> i" using fresh by auto
    then show ?thesis using g by (simp add: old [OF a] acts)
  qed
  show ?thesis
    unfolding registry_ok_def using p1 p2 by blast
qed

lemma obj_ok_append_Complete: "obj_ok (ts @ [Complete c t]) a st = obj_ok ts a st"
  by (simp add: obj_ok_def)

lemma obj_ok_append_other:
  "a \<noteq> b \<Longrightarrow> obj_ok (ts @ [Run1 b]) a st = obj_ok ts a st"
  by (auto simp: obj_ok_def)

lemma obj_ok_remove_Complete:
  "obj_ok (pre @ post) a st = obj_ok (pre @ Complete c t # post) a st"
  by (simp add: obj_ok_def)

lemma obj_ok_remove_other:
  "a \<noteq> b \<Longrightarrow> obj_ok (pre @ post) a st = obj_ok (pre @ Run2 b # post) a st"
  by (auto simp: obj_ok_def)

lemma obj_ok_step_other:
  "a \<noteq> b \<Longrightarrow> obj_ok (pre @ Run2 b # post) a st = obj_ok (pre @ Run1 b # post) a st"
  by (auto simp: obj_ok_def)

lemma objs_ok_add_Complete:
  assumes "objs_ok s" "tasks s' = tasks s @ [Complete c t]" "objects s' = objects s"
  shows "objs_ok s'"
  using assms by (simp add: objs_ok_def obj_ok_append_Complete)

lemma objs_ok_remove_Complete:
  assumes "objs_ok s" "tasks s = pre @ Complete c t # post" "tasks s' = pre @ post"
    "objects s' = objects s"
  shows "objs_ok s'"
  using assms by (simp add: objs_ok_def obj_ok_remove_Complete [of pre post _ _ c t])

subsection \<open>Upper case and equality up to case\<close>

lemma upper_char_eq_iff:
  fixes m :: nat
  assumes "m < 256" "\<not> (97 \<le> m \<and> m \<le> 122)"
  shows "upper_char c = char_of m \<longleftrightarrow> c = char_of m \<or> (65 \<le> m \<and> m \<le> 90 \<and> c = char_of (m + 32))"
proof -
  define n where "n = (of_char c :: nat)"
  have c: "c = char_of n" and n: "n < 256" by (simp_all add: n_def)
  show ?thesis
    unfolding upper_char_def Let_def c using n assms
    by (auto simp: char_of_eq_iff take_bit_eq_mod)
qed

lemma upper_char_letters:
  "upper_char c = CHR ''C'' \<longleftrightarrow> c = CHR ''C'' \<or> c = CHR ''c''"
  "upper_char c = CHR ''A'' \<longleftrightarrow> c = CHR ''A'' \<or> c = CHR ''a''"
  "upper_char c = CHR ''L'' \<longleftrightarrow> c = CHR ''L'' \<or> c = CHR ''l''"
  "upper_char c = CHR ''I'' \<longleftrightarrow> c = CHR ''I'' \<or> c = CHR ''i''"
  "upper_char c = CHR ''B'' \<longleftrightarrow> c = CHR ''B'' \<or> c = CHR ''b''"
  "upper_char c = CHR ''R'' \<longleftrightarrow> c = CHR ''R'' \<or> c = CHR ''r''"
  "upper_char c = CHR ''T'' \<longleftrightarrow> c = CHR ''T'' \<or> c = CHR ''t''"
  "upper_char c = CHR ''E'' \<longleftrightarrow> c = CHR ''E'' \<or> c = CHR ''e''"
proof -
  have k: "CHR ''C'' = char_of (67::nat)" "CHR ''c'' = char_of (67 + 32::nat)"
    "CHR ''A'' = char_of (65::nat)" "CHR ''a'' = char_of (65 + 32::nat)"
    "CHR ''L'' = char_of (76::nat)" "CHR ''l'' = char_of (76 + 32::nat)"
    "CHR ''I'' = char_of (73::nat)" "CHR ''i'' = char_of (73 + 32::nat)"
    "CHR ''B'' = char_of (66::nat)" "CHR ''b'' = char_of (66 + 32::nat)"
    "CHR ''R'' = char_of (82::nat)" "CHR ''r'' = char_of (82 + 32::nat)"
    "CHR ''T'' = char_of (84::nat)" "CHR ''t'' = char_of (84 + 32::nat)"
    "CHR ''E'' = char_of (69::nat)" "CHR ''e'' = char_of (69 + 32::nat)"
    by code_simp+
  show "upper_char c = CHR ''C'' \<longleftrightarrow> c = CHR ''C'' \<or> c = CHR ''c''"
    unfolding k by (subst upper_char_eq_iff) simp_all
  show "upper_char c = CHR ''A'' \<longleftrightarrow> c = CHR ''A'' \<or> c = CHR ''a''"
    unfolding k by (subst upper_char_eq_iff) simp_all
  show "upper_char c = CHR ''L'' \<longleftrightarrow> c = CHR ''L'' \<or> c = CHR ''l''"
    unfolding k by (subst upper_char_eq_iff) simp_all
  show "upper_char c = CHR ''I'' \<longleftrightarrow> c = CHR ''I'' \<or> c = CHR ''i''"
    unfolding k by (subst upper_char_eq_iff) simp_all
  show "upper_char c = CHR ''B'' \<longleftrightarrow> c = CHR ''B'' \<or> c = CHR ''b''"
    unfolding k by (subst upper_char_eq_iff) simp_all
  show "upper_char c = CHR ''R'' \<longleftrightarrow> c = CHR ''R'' \<or> c = CHR ''r''"
    unfolding k by (subst upper_char_eq_iff) simp_all
  show "upper_char c = CHR ''T'' \<longleftrightarrow> c = CHR ''T'' \<or> c = CHR ''t''"
    unfolding k by (subst upper_char_eq_iff) simp_all
  show "upper_char c = CHR ''E'' \<longleftrightarrow> c = CHR ''E'' \<or> c = CHR ''e''"
    unfolding k by (subst upper_char_eq_iff) simp_all
qed

lemma eq_ignore_case_char_letters:
  "eq_ignore_case_char c (CHR ''C'') \<longleftrightarrow> c = CHR ''C'' \<or> c = CHR ''c''"
  "eq_ignore_case_char c (CHR ''A'') \<longleftrightarrow> c = CHR ''A'' \<or> c = CHR ''a''"
  "eq_ignore_case_char c (CHR ''L'') \<longleftrightarrow> c = CHR ''L'' \<or> c = CHR ''l''"
  "eq_ignore_case_char c (CHR ''I'') \<longleftrightarrow> c = CHR ''I'' \<or> c = CHR ''i''"
  "eq_ignore_case_char c (CHR ''B'') \<longleftrightarrow> c = CHR ''B'' \<or> c = CHR ''b''"
  "eq_ignore_case_char c (CHR ''R'') \<longleftrightarrow> c = CHR ''R'' \<or> c = CHR ''r''"
  "eq_ignore_case_char c (CHR ''T'') \<longleftrightarrow> c = CHR ''T'' \<or> c = CHR ''t''"
  "eq_ignore_case_char c (CHR ''E'') \<longleftrightarrow> c = CHR ''E'' \<or> c = CHR ''e''"
  by (simp_all add: eq_ignore_case_char_def)

lemma map_upper_char_CALIBRATE:
  "map upper_char s = ''CALIBRATE'' \<longleftrightarrow> eq_ignore_case s ''CALIBRATE''"
  unfolding eq_ignore_case_def
  by (simp add: map_eq_Cons_conv list_all2_Cons2 upper_char_letters eq_ignore_case_char_letters)

lemma upper_char_i: "upper_char (CHR ''i'') = CHR ''I''"
  by code_simp

lemma upper_dotless: "upper s = map upper_char (dotless_to_i s)"
  by (induction s rule: dotless_to_i.induct) (simp_all add: upper_char_i)

lemma upper_CALIBRATE:
  "upper s = ''CALIBRATE'' \<longleftrightarrow> eq_ignore_case (dotless_to_i s) ''CALIBRATE''"
  by (simp only: upper_dotless map_upper_char_CALIBRATE)

subsection \<open>What each step does to the state\<close>

lemma run_first_fields [simp]:
  "objects (run_first a s) = (objects s)[a := (objects s ! a)\<lparr>status := ''ACTIVITY_IN_PROGRESS''\<rparr>]"
  "tasks (run_first a s) = tasks s"
  "activities (run_first a s) = activities s"
  "next_activity_num (run_first a s) = next_activity_num s"
  by (simp_all add: run_first_def Let_def)

lemma run_second_raises:
  "deadline_exceeded e (objects s ! a) = Inl ex \<Longrightarrow> run_second e a s = s"
  by (simp add: run_second_def)

lemma run_second_fields [simp]:
  "objects (run_second e a s) =
     (case deadline_exceeded e (objects s ! a) of
        Inl ex \<Rightarrow> objects s
      | Inr c \<Rightarrow>
          (objects s)[a :=
            (if c
             then (objects s ! a)\<lparr>status := ''ACTIVITY_CANCELED'',
                    statusMsg := Some ''Deadline exceeded'', timeEnd := Some (now_ts (clock e))\<rparr>
             else (objects s ! a)\<lparr>status := ''ACTIVITY_COMPLETED'',
                    timeEnd := Some (now_ts (clock e)), products := [uuid_a e, uuid_b e]\<rparr>)])"
  "tasks (run_second e a s) = tasks s"
  "activities (run_second e a s) = activities s"
  "next_activity_num (run_second e a s) = next_activity_num s"
  by (simp_all add: run_second_def Let_def split: sum.splits bool.splits)

lemma complete_fields [simp]:
  "objects (complete e c t s) = objects s"
  "tasks (complete e c t s) = tasks s"
  "activities (complete e c t s) = activities s"
  "next_activity_num (complete e c t s) = next_activity_num s"
  "event_queue (complete e c t s) =
     event_queue s @ [\<lparr>eventName = ''InstrumentActionCompletion'',
                        eventData = complete_payload e c t\<rparr>]"
  by (simp_all add: complete_def)

lemma perform_action_fields [simp]:
  "objects (snd (perform_action e c s)) = objects s"
  "tasks (snd (perform_action e c s)) = tasks s @ [Complete c (now_ts (clock e))]"
  "activities (snd (perform_action e c s)) = activities s"
  "next_activity_num (snd (perform_action e c s)) = next_activity_num s"
  "event_queue (snd (perform_action e c s)) = event_queue s"
  by (simp_all add: perform_action_def Let_def)

lemma cancel_activity_unknown:
  "activities s (cmd_activityId cmd) = None \<Longrightarrow>
   cancel_activity e cmd s = (HTTPException 404 ''Unknown activityId'', s)"
  by (simp add: cancel_activity_def)

lemma cancel_activity_known:
  "activities s (cmd_activityId cmd) = Some a \<Longrightarrow>
   cancel_activity e cmd s =
     (JSONResponse 202 [(''accepted'', B True)],
      emit ''InstrumentActivityStatusChange''
        (status_change_msg
           ((objects s)[a := (objects s ! a)\<lparr>status := ''ACTIVITY_CANCELED'',
                  timeEnd := Some (now_ts (clock e)), statusMsg := Some (reason cmd)\<rparr>] ! a))
        (set_obj a (\<lambda>st. st\<lparr>status := ''ACTIVITY_CANCELED'',
                  timeEnd := Some (now_ts (clock e)), statusMsg := Some (reason cmd)\<rparr>) s))"
  by (simp add: cancel_activity_def Let_def)

lemma fire_Complete:
  "k < length (tasks s) \<Longrightarrow> tasks s ! k = Complete c t \<Longrightarrow>
   fire e k s = complete e c t (s\<lparr>tasks := take k (tasks s) @ drop (Suc k) (tasks s)\<rparr>)"
  by (simp add: fire_def)

lemma fire_Run1:
  "k < length (tasks s) \<Longrightarrow> tasks s ! k = Run1 a \<Longrightarrow>
   fire e k s = run_first a (s\<lparr>tasks := (tasks s)[k := Run2 a]\<rparr>)"
  by (simp add: fire_def)

lemma fire_Run2:
  "k < length (tasks s) \<Longrightarrow> tasks s ! k = Run2 a \<Longrightarrow>
   fire e k s = run_second e a (s\<lparr>tasks := take k (tasks s) @ drop (Suc k) (tasks s)\<rparr>)"
  by (simp add: fire_def)

lemma fire_idle: "\<not> k < length (tasks s) \<Longrightarrow> fire e k s = s"
  by (simp add: fire_def)

lemma objs_okI:
  assumes "\<And>b. b < length (objects s) \<Longrightarrow> obj_ok (tasks s) b (objects s ! b)"
  shows "objs_ok s"
  using assms by (simp add: objs_ok_def)

lemma objs_okD: "objs_ok s \<Longrightarrow> b < length (objects s) \<Longrightarrow> obj_ok (tasks s) b (objects s ! b)"
  by (simp add: objs_ok_def)

lemma obj_ok_cancel:
  assumes "obj_ok ts a st"
  shows "obj_ok ts a (st\<lparr>status := ''ACTIVITY_CANCELED'', timeEnd := Some t, statusMsg := Some m\<rparr>)"
  using assms by (simp add: obj_ok_def terminal_def deadline_raises_def)

lemma obj_ok_first:
  assumes "obj_ok (pre @ Run1 a # post) a st" "distinct (run_addrs (pre @ Run1 a # post))"
  shows "obj_ok (pre @ Run2 a # post) a (st\<lparr>status := ''ACTIVITY_IN_PROGRESS''\<rparr>)"
proof -
  have n: "Run1 a \<notin> set pre" "Run1 a \<notin> set post"
    using assms(2) Run_in_addrs(1) by fastforce+
  have o: "products st = []"
    "status st = ''ACTIVITY_PENDING'' \<or> status st = ''ACTIVITY_CANCELED''"
    "timeEnd st \<noteq> None \<longleftrightarrow> status st = ''ACTIVITY_COMPLETED'' \<or> statusMsg st \<noteq> None"
    using assms(1) by (simp_all add: obj_ok_def)
  have t: "timeEnd st \<noteq> None \<longleftrightarrow> statusMsg st \<noteq> None"
    using o(2,3) by auto
  show ?thesis
    using n o(1) t by (simp add: obj_ok_def terminal_def)
qed

lemma obj_ok_second:
  assumes "obj_ok (pre @ Run2 a # post) a st" "distinct (run_addrs (pre @ Run2 a # post))"
  shows "obj_ok (pre @ post) a
      (if c then st\<lparr>status := ''ACTIVITY_CANCELED'', statusMsg := Some m, timeEnd := Some t\<rparr>
       else st\<lparr>status := ''ACTIVITY_COMPLETED'', timeEnd := Some t, products := [u, v]\<rparr>)"
proof -
  have "Run1 a \<notin> set pre" "Run1 a \<notin> set post" "Run2 a \<notin> set pre" "Run2 a \<notin> set post"
    using assms(2) Run_in_addrs by fastforce+
  moreover have "products st = []"
    using assms(1) by (simp add: obj_ok_def)
  ultimately show ?thesis
    by (simp add: obj_ok_def terminal_def)
qed

lemma obj_ok_died:
  assumes "obj_ok (pre @ Run2 a # post) a st" "distinct (run_addrs (pre @ Run2 a # post))"
    and "deadline_raises st"
  shows "obj_ok (pre @ post) a st"
proof -
  have n: "Run1 a \<notin> set pre" "Run1 a \<notin> set post" "Run2 a \<notin> set pre" "Run2 a \<notin> set post"
    using assms(2) Run_in_addrs by fastforce+
  have o: "status st = ''ACTIVITY_IN_PROGRESS'' \<or> status st = ''ACTIVITY_CANCELED''"
    "products st = []"
    "timeEnd st \<noteq> None \<longleftrightarrow> status st = ''ACTIVITY_COMPLETED'' \<or> statusMsg st \<noteq> None"
    "status st = ''ACTIVITY_CANCELED'' \<longrightarrow> statusMsg st \<noteq> None"
    using assms(1) by (simp_all add: obj_ok_def)
  show ?thesis
    unfolding obj_ok_def using n o assms(3) by (auto simp: terminal_def)
qed

lemma deadline_exceeded_Inl:
  "deadline_exceeded e st = Inl ex \<Longrightarrow> deadline_raises st"
  by (auto simp: deadline_exceeded_def deadline_raises_def split: option.splits sum.splits)

lemma nth_list_update_cases:
  "xs[a := v] ! b = (if a = b \<and> a < length xs then v else xs ! b)"
  by (cases "a = b") (cases "a < length xs", simp_all add: list_update_beyond)

subsection \<open>The invariant holds in every reachable state\<close>

lemma invD:
  "inv s \<Longrightarrow> tasks_ok s" "inv s \<Longrightarrow> registry_ok s" "inv s \<Longrightarrow> ids_below s"
  "inv s \<Longrightarrow> objs_ok s"
  by (simp_all add: inv_def)

lemma invI: "tasks_ok s \<Longrightarrow> registry_ok s \<Longrightarrow> ids_below s \<Longrightarrow> objs_ok s \<Longrightarrow> inv s"
  by (simp add: inv_def)

lemma inv_perform_action:
  assumes "inv s"
  shows "inv (snd (perform_action e cmd s))"
proof (rule invI)
  show "tasks_ok (snd (perform_action e cmd s))"
    by (rule tasks_ok_add_Complete [OF invD(1) [OF assms]]) simp_all
  show "registry_ok (snd (perform_action e cmd s))"
    by (rule registry_ok_same_ids [OF invD(2) [OF assms]]) simp_all
  show "ids_below (snd (perform_action e cmd s))"
    by (rule ids_below_mono [OF invD(3) [OF assms]]) simp_all
  show "objs_ok (snd (perform_action e cmd s))"
    by (rule objs_ok_add_Complete [OF invD(4) [OF assms]]) simp_all
qed

lemma inv_fire_Complete:
  assumes i: "inv s" and k: "k < length (tasks s)" and t: "tasks s ! k = Complete c tb"
  shows "inv (fire e k s)"
proof -
  obtain pre post where ts: "tasks s = pre @ Complete c tb # post"
    and td: "take k (tasks s) = pre" "drop (Suc k) (tasks s) = post"
    using nth_split [OF k] t by metis
  let ?s' = "fire e k s"
  have f: "tasks ?s' = pre @ post" "objects ?s' = objects s" "activities ?s' = activities s"
    "next_activity_num ?s' = next_activity_num s"
    by (simp_all add: fire_Complete [OF k t] td)
  show ?thesis
  proof (rule invI)
    show "tasks_ok ?s'"
      by (rule tasks_ok_remove [OF invD(1) [OF i] ts]) (simp_all add: f)
    show "registry_ok ?s'"
      by (rule registry_ok_same_ids [OF invD(2) [OF i]]) (simp_all add: f)
    show "ids_below ?s'"
      by (rule ids_below_mono [OF invD(3) [OF i]]) (simp_all add: f)
    show "objs_ok ?s'"
      by (rule objs_ok_remove_Complete [OF invD(4) [OF i] ts]) (simp_all add: f)
  qed
qed

lemma inv_fire_Run1:
  assumes i: "inv s" and k: "k < length (tasks s)" and t: "tasks s ! k = Run1 a"
  shows "inv (fire e k s)"
proof -
  obtain pre post where ts: "tasks s = pre @ Run1 a # post"
    and tu: "\<And>x. (tasks s)[k := x] = pre @ x # post"
    using nth_split [OF k] t by metis
  let ?s' = "fire e k s"
  have f: "tasks ?s' = pre @ Run2 a # post"
    "objects ?s' = (objects s)[a := (objects s ! a)\<lparr>status := ''ACTIVITY_IN_PROGRESS''\<rparr>]"
    "activities ?s' = activities s" "next_activity_num ?s' = next_activity_num s"
    by (simp_all add: fire_Run1 [OF k t] tu)
  have d: "distinct (run_addrs (pre @ Run1 a # post))"
    using invD(1) [OF i] by (simp add: tasks_ok_def ts)
  show ?thesis
  proof (rule invI)
    show "tasks_ok ?s'"
      by (rule tasks_ok_step [OF invD(1) [OF i] ts]) (simp_all add: f)
    show "registry_ok ?s'"
      by (rule registry_ok_same_ids [OF invD(2) [OF i]]) (simp_all add: f nth_list_update_cases)
    show "ids_below ?s'"
      by (rule ids_below_mono [OF invD(3) [OF i]]) (simp_all add: f)
    show "objs_ok ?s'"
    proof (rule objs_okI)
      fix b assume "b < length (objects ?s')"
      then have b: "b < length (objects s)" by (simp add: f)
      have o: "obj_ok (pre @ Run1 a # post) b (objects s ! b)"
        using objs_okD [OF invD(4) [OF i] b] by (simp add: ts)
      show "obj_ok (tasks ?s') b (objects ?s' ! b)"
      proof (cases "b = a")
        case True
        then show ?thesis
          using obj_ok_first [OF _ d] o b by (simp add: f)
      next
        case False
        then show ?thesis
          using o b by (simp add: f obj_ok_step_other)
      qed
    qed
  qed
qed

lemma inv_fire_Run2:
  assumes i: "inv s" and k: "k < length (tasks s)" and t: "tasks s ! k = Run2 a"
  shows "inv (fire e k s)"
proof -
  obtain pre post where ts: "tasks s = pre @ Run2 a # post"
    and td: "take k (tasks s) = pre" "drop (Suc k) (tasks s) = post"
    using nth_split [OF k] t by metis
  let ?s' = "fire e k s"
  let ?st = "objects s ! a"
  have f: "tasks ?s' = pre @ post"
    "activities ?s' = activities s" "next_activity_num ?s' = next_activity_num s"
    by (simp_all add: fire_Run2 [OF k t] td)
  have len: "length (objects ?s') = length (objects s)"
    by (simp add: fire_Run2 [OF k t] split: sum.splits)
  have other: "objects ?s' ! b = objects s ! b" if "b \<noteq> a" for b
    using that by (simp add: fire_Run2 [OF k t] nth_list_update_cases split: sum.splits)
  have ids: "activityId (objects ?s' ! b) = activityId (objects s ! b)" for b
    by (simp add: fire_Run2 [OF k t] nth_list_update_cases split: sum.splits)
  have d: "distinct (run_addrs (pre @ Run2 a # post))"
    using invD(1) [OF i] by (simp add: tasks_ok_def ts)
  show ?thesis
  proof (rule invI)
    show "tasks_ok ?s'"
      by (rule tasks_ok_remove [OF invD(1) [OF i] ts]) (simp_all add: f len)
    show "registry_ok ?s'"
      by (rule registry_ok_same_ids [OF invD(2) [OF i]]) (simp_all add: f len ids)
    show "ids_below ?s'"
      by (rule ids_below_mono [OF invD(3) [OF i]]) (simp_all add: f)
    show "objs_ok ?s'"
    proof (rule objs_okI)
      fix b assume "b < length (objects ?s')"
      then have b: "b < length (objects s)" by (simp add: len)
      have o: "obj_ok (pre @ Run2 a # post) b (objects s ! b)"
        using objs_okD [OF invD(4) [OF i] b] by (simp add: ts)
      show "obj_ok (tasks ?s') b (objects ?s' ! b)"
      proof (cases "b = a")
        case True
        have oa: "obj_ok (pre @ Run2 a # post) a ?st"
          using o True by simp
        have "obj_ok (pre @ post) a (objects ?s' ! a)"
        proof (cases "deadline_exceeded e ?st")
          case (Inl ex)
          have "objects ?s' ! a = ?st"
            by (simp add: fire_Run2 [OF k t] Inl)
          then show ?thesis
            using obj_ok_died [OF oa d deadline_exceeded_Inl [OF Inl]] by simp
        next
          case (Inr c)
          have "objects ?s' ! a =
            (if c then ?st\<lparr>status := ''ACTIVITY_CANCELED'',
                statusMsg := Some ''Deadline exceeded'', timeEnd := Some (now_ts (clock e))\<rparr>
             else ?st\<lparr>status := ''ACTIVITY_COMPLETED'',
                timeEnd := Some (now_ts (clock e)), products := [uuid_a e, uuid_b e]\<rparr>)"
            using b True by (simp add: fire_Run2 [OF k t] Inr)
          then show ?thesis
            using obj_ok_second [OF oa d] by simp
        qed
        then show ?thesis
          using True by (simp only: f)
      next
        case False
        then show ?thesis
          using o by (simp add: f other obj_ok_remove_other [of b a pre post])
      qed
    qed
  qed
qed

lemma inv_fire: "inv s \<Longrightarrow> inv (fire e k s)"
proof (cases "k < length (tasks s)")
  case False
  assume "inv s"
  then show ?thesis using False by (simp add: fire_idle)
next
  case True
  assume i: "inv s"
  show ?thesis
  proof (cases "tasks s ! k")
    case (Complete c tb)
    then show ?thesis using inv_fire_Complete [OF i True] by simp
  next
    case (Run1 a)
    then show ?thesis using inv_fire_Run1 [OF i True] by simp
  next
    case (Run2 a)
    then show ?thesis using inv_fire_Run2 [OF i True] by simp
  qed
qed

lemma inv_cancel_activity:
  assumes i: "inv s"
  shows "inv (snd (cancel_activity e cmd s))"
proof (cases "activities s (cmd_activityId cmd)")
  case None
  then show ?thesis using i by (simp add: cancel_activity_unknown)
next
  case (Some a)
  let ?s' = "snd (cancel_activity e cmd s)"
  let ?st' = "(objects s ! a)\<lparr>status := ''ACTIVITY_CANCELED'',
                  timeEnd := Some (now_ts (clock e)), statusMsg := Some (reason cmd)\<rparr>"
  have f: "tasks ?s' = tasks s" "objects ?s' = (objects s)[a := ?st']"
    "activities ?s' = activities s" "next_activity_num ?s' = next_activity_num s"
    by (simp_all add: cancel_activity_known [OF Some])
  show ?thesis
  proof (rule invI)
    show "tasks_ok ?s'"
      using invD(1) [OF i] by (simp add: tasks_ok_def f)
    show "registry_ok ?s'"
      by (rule registry_ok_same_ids [OF invD(2) [OF i]]) (simp_all add: f nth_list_update_cases)
    show "ids_below ?s'"
      by (rule ids_below_mono [OF invD(3) [OF i]]) (simp_all add: f)
    show "objs_ok ?s'"
    proof (rule objs_okI)
      fix b assume "b < length (objects ?s')"
      then have b: "b < length (objects s)" by (simp add: f)
      have o: "obj_ok (tasks s) b (objects s ! b)"
        by (rule objs_okD [OF invD(4) [OF i] b])
      show "obj_ok (tasks ?s') b (objects ?s' ! b)"
      proof (cases "b = a")
        case True
        then show ?thesis
          using obj_ok_cancel [OF o] b by (simp add: f)
      next
        case False
        then show ?thesis using o b by (simp add: f)
      qed
    qed
  qed
qed

lemma inv_start_activity:
  assumes i: "inv s"
  shows "inv (snd (start_activity P e req s))"
proof (cases "req_activityName req \<in> set ACTIVITIES")
  case False
  then show ?thesis using i by (simp add: start_activity_unknown)
next
  case True
  show ?thesis
  proof (cases "parse_deadline P req")
    case (Inl ex)
    let ?s' = "s\<lparr>next_activity_num := next_activity_num s + 1\<rparr>"
    have "inv ?s'"
    proof (rule invI)
      show "tasks_ok ?s'" using invD(1) [OF i] by (simp add: tasks_ok_def)
      show "registry_ok ?s'" using invD(2) [OF i] by (simp add: registry_ok_def)
      show "ids_below ?s'" by (rule ids_below_mono [OF invD(3) [OF i]]) simp_all
      show "objs_ok ?s'" using invD(4) [OF i] by (simp add: objs_ok_def)
    qed
    then show ?thesis
      by (simp add: start_activity_invalid [OF True Inl])
  next
    case (Inr dl)
    let ?i = "''act_'' @ format_04d (next_activity_num s)"
    let ?n = "length (objects s)"
    let ?s' = "snd (start_activity P e req s)"
    have f: "tasks ?s' = tasks s @ [Run1 ?n]"
      "objects ?s' = objects s @ [new_state e req dl s]"
      "activities ?s' = (activities s)(?i \<mapsto> ?n)"
      "next_activity_num ?s' = next_activity_num s + 1"
      by (simp_all add: start_activity_ok [OF True Inr])
    have fresh: "activities s ?i = None"
      by (rule new_id_fresh [OF invD(3) [OF i]])
    have nin: "?n \<notin> set (run_addrs (tasks s))"
      using invD(1) [OF i] by (auto simp: tasks_ok_def)
    show ?thesis
    proof (rule invI)
      show "tasks_ok ?s'"
        by (rule tasks_ok_add_Run1 [OF invD(1) [OF i]]) (simp_all add: f)
      show "registry_ok ?s'"
        by (rule registry_ok_add [OF invD(2) [OF i] fresh f(3) f(2)]) (simp add: new_state_def)
      show "ids_below ?s'"
        by (rule ids_below_add [OF invD(3) [OF i] f(3) f(4)])
      show "objs_ok ?s'"
      proof (rule objs_okI)
        fix b assume "b < length (objects ?s')"
        then have b: "b < ?n \<or> b = ?n" by (auto simp: f)
        show "obj_ok (tasks ?s') b (objects ?s' ! b)"
        proof (cases "b = ?n")
          case True
          have "obj_ok (tasks s @ [Run1 ?n]) ?n (new_state e req dl s)"
            using nin by (auto simp: obj_ok_def new_state_def terminal_def dest: Run_in_addrs)
          then show ?thesis using True by (simp add: f)
        next
          case False
          then have b': "b < ?n" using b by simp
          then show ?thesis
            using objs_okD [OF invD(4) [OF i] b'] False
            by (simp add: f nth_append obj_ok_append_other)
        qed
      qed
    qed
  qed
qed

lemma inv_exec: "inv s \<Longrightarrow> inv (exec P x s)"
proof -
  assume i: "inv s"
  obtain e c where x: "x = (e, c)" by (cases x)
  show ?thesis
    unfolding x
    by (cases c) (simp_all add: i inv_perform_action inv_start_activity inv_cancel_activity inv_fire)
qed

lemma reachable_inv: "reachable P s \<Longrightarrow> inv s"
  by (induction rule: reachable.induct) (simp_all add: inv_init inv_exec)

lemma reachable_run_ops: "reachable P s \<Longrightarrow> reachable P (run_ops P xs s)"
  by (induction xs arbitrary: s) (simp_all add: reachable_exec)

subsection \<open>Facts about the examples\<close>

lemma lookup_None: "lookup s i = None \<longleftrightarrow> activities s i = None"
  by (simp add: lookup_def)

lemma reachable_examples:
  "reachable isoparse_ex s_started" "reachable isoparse_ex s_in_progress"
  "reachable isoparse_ex s_completed" "reachable isoparse_ex s_canceled"
  unfolding s_started_def s_in_progress_def s_completed_def s_canceled_def
  by (intro reachable_run_ops reachable_init)+

section \<open>The claims\<close>

text \<open>
  C9. A data query for an id that is not registered raises 404. For a registered id
  whose record is not COMPLETED it returns an empty products list with the errorMsg
  "Data not ready"; for one whose record is COMPLETED it returns exactly the products
  of the record, and the body has no errorMsg key.
\<close>

theorem get_activity_data_cases:
  "(lookup s i = None \<longrightarrow> get_activity_data i s = HTTPException 404 ''Unknown activityId'') \<and>
   (\<forall>st. lookup s i = Some st \<and> status st \<noteq> ''ACTIVITY_COMPLETED'' \<longrightarrow>
      get_activity_data i s =
        JSONResponse 200 [(''products'', L []), (''errorMsg'', S ''Data not ready'')]) \<and>
   (\<forall>st. lookup s i = Some st \<and> status st = ''ACTIVITY_COMPLETED'' \<longrightarrow>
      get_activity_data i s = JSONResponse 200 [(''products'', L (products st))])"
  by (auto simp: lookup_def get_activity_data_def Let_def split: option.splits)

theorem get_activity_data_cases_witness:
  "get_activity_data ''act_0002'' s_completed = HTTPException 404 ''Unknown activityId'' \<and>
   get_activity_data ''act_0001'' s_started =
     JSONResponse 200 [(''products'', L []), (''errorMsg'', S ''Data not ready'')] \<and>
   get_activity_data ''act_0001'' s_completed =
     JSONResponse 200 [(''products'', L [''5f0c'', ''9ab1''])]"
proof -
  have a: "lookup s_completed ''act_0002'' = None"
    by code_simp
  have b: "lookup s_started ''act_0001'' =
      Some \<lparr>activityId = ''act_0001'', activityName = ''BUILD'', status = ''ACTIVITY_PENDING'',
            timeBegin = 1700000000, timeEnd = None, statusMsg = None, products = [],
            deadline = None\<rparr>"
    by code_simp
  have c: "lookup s_completed ''act_0001'' =
      Some \<lparr>activityId = ''act_0001'', activityName = ''BUILD'', status = ''ACTIVITY_COMPLETED'',
            timeBegin = 1700000000, timeEnd = Some 1700000000, statusMsg = None,
            products = [''5f0c'', ''9ab1''], deadline = None\<rparr>"
    by code_simp
  show ?thesis
    using get_activity_data_cases [of s_completed "''act_0002''"]
      get_activity_data_cases [of s_started "''act_0001''"]
      get_activity_data_cases [of s_completed "''act_0001''"]
    by (simp add: a b c)
qed




text \<open>
  C5. A cancel request for an id that is not registered raises 404 and returns the state
  unchanged. For a registered id, whatever the status of its record, the handler returns
  202, the record has status CANCELED, timeEnd set to the current timestamp and the
  supplied reason as statusMsg, every other field as before, and exactly one
  InstrumentActivityStatusChange event carrying that reason is appended to the queue.
\<close>

theorem cancel_activity_cases:
  assumes "reachable P s"
  shows "(activities s (cmd_activityId cmd) = None \<longrightarrow>
      cancel_activity e cmd s = (HTTPException 404 ''Unknown activityId'', s)) \<and>
    (\<forall>a. activities s (cmd_activityId cmd) = Some a \<longrightarrow>
      status_code (fst (cancel_activity e cmd s)) = 202 \<and>
      lookup (snd (cancel_activity e cmd s)) (cmd_activityId cmd) =
        Some ((objects s ! a)\<lparr>status := ''ACTIVITY_CANCELED'',
                timeEnd := Some (now_ts (clock e)), statusMsg := Some (reason cmd)\<rparr>) \<and>
      event_queue (snd (cancel_activity e cmd s)) = event_queue s @
        [\<lparr>eventName = ''InstrumentActivityStatusChange'',
          eventData = [(''activityId'', S (cmd_activityId cmd)),
                       (''activityName'', S (activityName (objects s ! a))),
                       (''activityStatus'', S ''ACTIVITY_CANCELED''),
                       (''statusMsg'', S (reason cmd))]\<rparr>])"
proof (intro conjI allI impI)
  assume "activities s (cmd_activityId cmd) = None"
  then show "cancel_activity e cmd s = (HTTPException 404 ''Unknown activityId'', s)"
    by (rule cancel_activity_unknown)
next
  fix a assume a: "activities s (cmd_activityId cmd) = Some a"
  have r: "a < length (objects s)" "activityId (objects s ! a) = cmd_activityId cmd"
    using invD(2) [OF reachable_inv [OF assms]] a unfolding registry_ok_def by blast+
  show "status_code (fst (cancel_activity e cmd s)) = 202"
    by (simp add: cancel_activity_known [OF a] status_code_def)
  show "lookup (snd (cancel_activity e cmd s)) (cmd_activityId cmd) =
        Some ((objects s ! a)\<lparr>status := ''ACTIVITY_CANCELED'',
                timeEnd := Some (now_ts (clock e)), statusMsg := Some (reason cmd)\<rparr>)"
    using r by (simp add: cancel_activity_known [OF a] lookup_def a)
  show "event_queue (snd (cancel_activity e cmd s)) = event_queue s @
        [\<lparr>eventName = ''InstrumentActivityStatusChange'',
          eventData = [(''activityId'', S (cmd_activityId cmd)),
                       (''activityName'', S (activityName (objects s ! a))),
                       (''activityStatus'', S ''ACTIVITY_CANCELED''),
                       (''statusMsg'', S (reason cmd))]\<rparr>]"
    using r by (simp add: cancel_activity_known [OF a] status_change_msg_def status_change_def)
qed

theorem cancel_activity_cases_witness:
  "cancel_activity env_ex \<lparr>cmd_activityId = ''act_0007'', reason = ''x''\<rparr> s_completed =
     (HTTPException 404 ''Unknown activityId'', s_completed) \<and>
   map_option status (lookup (snd (cancel_activity env_ex cmd_cancel s_completed)) ''act_0001'') =
     Some ''ACTIVITY_CANCELED'' \<and>
   map_option statusMsg (lookup (snd (cancel_activity env_ex cmd_cancel s_completed)) ''act_0001'') =
     Some (Some ''operator stop'') \<and>
   map_option timeEnd (lookup (snd (cancel_activity env_ex cmd_cancel s_completed)) ''act_0001'') =
     Some (Some 1700000000)"
proof -
  have a: "activities s_completed ''act_0007'' = None"
    by code_simp
  have b: "activities s_completed ''act_0001'' = Some 0"
    by code_simp
  have c: "cmd_activityId cmd_cancel = ''act_0001''" "reason cmd_cancel = ''operator stop''"
    "now_ts (clock env_ex) = 1700000000"
    by code_simp+
  show ?thesis
    using cancel_activity_cases [OF reachable_examples(3), of "\<lparr>cmd_activityId = ''act_0007'', reason = ''x''\<rparr>" env_ex]
      cancel_activity_cases [OF reachable_examples(3), of cmd_cancel env_ex]
    by (simp add: a b c)
qed

subsection \<open>The ids start_activity returns\<close>

lemma id_number_format: "id_number (''act_'' @ format_04d n) = n"
  by (simp add: id_number_def digits_value_format_04d)

lemma is_activity_id_format: "is_activity_id (''act_'' @ format_04d n)"
  by (simp add: is_activity_id_def format_04d_digits format_04d_length)

lemma start_activity_returned:
  assumes "returned_id (fst (start_activity P e req s)) \<noteq> []"
  shows "returned_id (fst (start_activity P e req s)) =
      ''act_'' @ format_04d (next_activity_num s)"
proof (cases "req_activityName req \<in> set ACTIVITIES")
  case False
  then show ?thesis
    using assms by (simp add: start_activity_unknown returned_id_def body_def)
next
  case True
  show ?thesis
  proof (cases "parse_deadline P req")
    case (Inl ex)
    then show ?thesis
      using assms by (simp add: start_activity_invalid [OF True Inl] returned_id_def body_def)
  next
    case (Inr dl)
    then show ?thesis
      by (simp add: start_activity_ok [OF True Inr] returned_id_def body_def)
  qed
qed

lemma next_mono_start: "next_activity_num s \<le> next_activity_num (snd (start_activity P e req s))"
proof (cases "req_activityName req \<in> set ACTIVITIES")
  case False
  then show ?thesis by (simp add: start_activity_unknown)
next
  case True
  show ?thesis
  proof (cases "parse_deadline P req")
    case (Inl ex)
    then show ?thesis by (simp add: start_activity_invalid [OF True Inl])
  next
    case (Inr dl)
    then show ?thesis by (simp add: start_activity_ok [OF True Inr])
  qed
qed

lemma next_after_start:
  assumes "returned_id (fst (start_activity P e req s)) \<noteq> []"
  shows "next_activity_num (snd (start_activity P e req s)) = next_activity_num s + 1"
proof (cases "req_activityName req \<in> set ACTIVITIES")
  case False
  then show ?thesis
    using assms by (simp add: start_activity_unknown returned_id_def body_def)
next
  case True
  show ?thesis
  proof (cases "parse_deadline P req")
    case (Inl ex)
    then show ?thesis by (simp add: start_activity_invalid [OF True Inl])
  next
    case (Inr dl)
    then show ?thesis by (simp add: start_activity_ok [OF True Inr])
  qed
qed

lemma next_cancel: "next_activity_num (snd (cancel_activity e cmd s)) = next_activity_num s"
  by (cases "activities s (cmd_activityId cmd)")
     (simp_all add: cancel_activity_unknown cancel_activity_known)

lemma next_fire: "next_activity_num (fire e k s) = next_activity_num s"
proof (cases "k < length (tasks s)")
  case False
  then show ?thesis by (simp add: fire_idle)
next
  case True
  then show ?thesis
    by (cases "tasks s ! k") (simp_all add: fire_Complete fire_Run1 fire_Run2)
qed

lemma next_mono_exec: "next_activity_num s \<le> next_activity_num (exec P x s)"
proof -
  obtain e c where x: "x = (e, c)" by (cases x)
  show ?thesis
    unfolding x by (cases c) (simp_all add: next_mono_start next_cancel next_fire)
qed

lemma next_mono_run_ops: "next_activity_num s \<le> next_activity_num (run_ops P xs s)"
proof (induction xs arbitrary: s)
  case Nil
  show ?case by simp
next
  case (Cons x xs)
  have "next_activity_num s \<le> next_activity_num (exec P x s)"
    by (rule next_mono_exec)
  also have "\<dots> \<le> next_activity_num (run_ops P xs (exec P x s))"
    by (rule Cons.IH)
  finally show ?case by simp
qed

text \<open>
  C8. A start call succeeds exactly when the id it returns is not empty. The id of a
  successful call is act_ followed by the counter in the format 04d: at least four
  decimal digits, padded with zeros on the left, denoting the value the counter had. Any
  successful start call made later, after any operations in between, returns an id whose
  number is strictly greater, hence a different id.
\<close>

theorem start_activity_ids:
  assumes "returned_id (fst (start_activity P e req s)) \<noteq> []"
  shows "is_activity_id (returned_id (fst (start_activity P e req s))) \<and>
    returned_id (fst (start_activity P e req s)) = ''act_'' @ format_04d (next_activity_num s) \<and>
    id_number (returned_id (fst (start_activity P e req s))) = next_activity_num s \<and>
    (\<forall>xs e' req'.
       returned_id (fst (start_activity P e' req'
          (run_ops P xs (snd (start_activity P e req s))))) \<noteq> [] \<longrightarrow>
       id_number (returned_id (fst (start_activity P e req s))) <
         id_number (returned_id (fst (start_activity P e' req'
            (run_ops P xs (snd (start_activity P e req s)))))) \<and>
       returned_id (fst (start_activity P e req s)) \<noteq>
         returned_id (fst (start_activity P e' req'
            (run_ops P xs (snd (start_activity P e req s))))))"
proof -
  let ?i = "returned_id (fst (start_activity P e req s))"
  let ?s1 = "snd (start_activity P e req s)"
  have i: "?i = ''act_'' @ format_04d (next_activity_num s)"
    by (rule start_activity_returned [OF assms])
  have n1: "next_activity_num ?s1 = next_activity_num s + 1"
    by (rule next_after_start [OF assms])
  have later: "id_number ?i < id_number (returned_id (fst (start_activity P e' req' (run_ops P xs ?s1))))
      \<and> ?i \<noteq> returned_id (fst (start_activity P e' req' (run_ops P xs ?s1)))"
    if h: "returned_id (fst (start_activity P e' req' (run_ops P xs ?s1))) \<noteq> []"
    for xs e' req'
  proof -
    let ?s2 = "run_ops P xs ?s1"
    let ?j = "returned_id (fst (start_activity P e' req' ?s2))"
    have j: "?j = ''act_'' @ format_04d (next_activity_num ?s2)"
      by (rule start_activity_returned [OF h])
    have "next_activity_num ?s1 \<le> next_activity_num ?s2"
      by (rule next_mono_run_ops)
    then have lt: "next_activity_num s < next_activity_num ?s2"
      using n1 by simp
    have "id_number ?i < id_number ?j"
      unfolding i j id_number_format by (rule lt)
    then show ?thesis by auto
  qed
  show ?thesis
  proof (intro conjI allI impI)
    show "is_activity_id ?i"
      unfolding i by (rule is_activity_id_format)
    show "?i = ''act_'' @ format_04d (next_activity_num s)"
      by (rule i)
    show "id_number ?i = next_activity_num s"
      unfolding i by (rule id_number_format)
  next
    fix xs e' req'
    assume "returned_id (fst (start_activity P e' req' (run_ops P xs ?s1))) \<noteq> []"
    then show "id_number ?i <
        id_number (returned_id (fst (start_activity P e' req' (run_ops P xs ?s1))))"
      using later by blast
  next
    fix xs e' req'
    assume "returned_id (fst (start_activity P e' req' (run_ops P xs ?s1))) \<noteq> []"
    then show "?i \<noteq> returned_id (fst (start_activity P e' req' (run_ops P xs ?s1)))"
      using later by blast
  qed
qed

theorem start_activity_ids_witness:
  "returned_id (fst (start_activity isoparse_ex env_ex req_build init)) = ''act_0001'' \<and>
   is_activity_id ''act_0001'' \<and>
   returned_id (fst (start_activity isoparse_ex env_ex req_past
      (run_ops isoparse_ex [(env_ex, Fire 0)]
         (snd (start_activity isoparse_ex env_ex req_build init))))) = ''act_0002'' \<and>
   id_number ''act_0001'' < id_number ''act_0002''"
proof -
  have a: "returned_id (fst (start_activity isoparse_ex env_ex req_build init)) = ''act_0001''"
    by code_simp
  have b: "returned_id (fst (start_activity isoparse_ex env_ex req_past
      (run_ops isoparse_ex [(env_ex, Fire 0)]
         (snd (start_activity isoparse_ex env_ex req_build init))))) = ''act_0002''"
    by code_simp
  have h: "returned_id (fst (start_activity isoparse_ex env_ex req_build init)) \<noteq> []"
    unfolding a by simp
  note t = start_activity_ids [OF h]
  have "is_activity_id (returned_id (fst (start_activity isoparse_ex env_ex req_build init)))"
    using t by blast
  moreover have "id_number (returned_id (fst (start_activity isoparse_ex env_ex req_build init))) <
     id_number (returned_id (fst (start_activity isoparse_ex env_ex req_past
      (run_ops isoparse_ex [(env_ex, Fire 0)]
         (snd (start_activity isoparse_ex env_ex req_build init))))))"
  proof -
    have "returned_id (fst (start_activity isoparse_ex env_ex req_past
      (run_ops isoparse_ex [(env_ex, Fire 0)]
         (snd (start_activity isoparse_ex env_ex req_build init))))) \<noteq> []"
      unfolding b by simp
    then show ?thesis using t by blast
  qed
  ultimately show ?thesis
    unfolding a b using a b by blast
qed



subsection \<open>Counting completions\<close>

lemma pending_completions_split:
  "tasks s = pre @ t # post \<Longrightarrow> tasks s' = pre @ post \<Longrightarrow>
   pending_completions s = pending_completions s' + (if is_completion t then 1 else 0)"
  by (simp add: pending_completions_def)

lemma pending_completions_update:
  "tasks s = pre @ Run1 a # post \<Longrightarrow> tasks s' = pre @ Run2 a # post \<Longrightarrow>
   pending_completions s' = pending_completions s"
  by (simp add: pending_completions_def)

lemma count_start:
  "completion_events (snd (start_activity P e req s)) = completion_events s \<and>
   pending_completions (snd (start_activity P e req s)) = pending_completions s"
proof (cases "req_activityName req \<in> set ACTIVITIES")
  case False
  then show ?thesis by (simp add: start_activity_unknown)
next
  case True
  show ?thesis
  proof (cases "parse_deadline P req")
    case (Inl ex)
    then show ?thesis
      by (simp add: start_activity_invalid [OF True Inl] completion_events_def
          pending_completions_def)
  next
    case (Inr dl)
    then show ?thesis
      by (simp add: start_activity_ok [OF True Inr] completion_events_def
          pending_completions_def)
  qed
qed

lemma count_cancel:
  "completion_events (snd (cancel_activity e cmd s)) = completion_events s \<and>
   pending_completions (snd (cancel_activity e cmd s)) = pending_completions s"
proof (cases "activities s (cmd_activityId cmd)")
  case None
  then show ?thesis by (simp add: cancel_activity_unknown)
next
  case (Some a)
  show ?thesis
    by (simp add: cancel_activity_known [OF Some] completion_events_def
        pending_completions_def)
qed

lemma count_fire:
  "completion_events (fire e k s) + pending_completions (fire e k s) =
   completion_events s + pending_completions s"
proof (cases "k < length (tasks s)")
  case False
  then show ?thesis by (simp add: fire_idle)
next
  case True
  obtain pre post where ts: "tasks s = pre @ tasks s ! k # post"
    and td: "take k (tasks s) = pre" "drop (Suc k) (tasks s) = post"
    and tu: "\<And>x. (tasks s)[k := x] = pre @ x # post"
    using nth_split [OF True] by metis
  show ?thesis
  proof (cases "tasks s ! k")
    case (Complete c tb)
    have "tasks (fire e k s) = pre @ post"
      by (simp add: fire_Complete [OF True Complete] td)
    then have p: "pending_completions s = pending_completions (fire e k s) + 1"
      using pending_completions_split [OF ts, of "fire e k s"] Complete by simp
    have "completion_events (fire e k s) = completion_events s + 1"
      by (simp add: fire_Complete [OF True Complete] completion_events_def)
    then show ?thesis using p by simp
  next
    case (Run1 a)
    have "tasks (fire e k s) = pre @ Run2 a # post"
      by (simp add: fire_Run1 [OF True Run1] tu)
    then have p: "pending_completions (fire e k s) = pending_completions s"
      using pending_completions_update [of s pre a post "fire e k s"] ts Run1 by simp
    have "completion_events (fire e k s) = completion_events s"
      by (simp add: fire_Run1 [OF True Run1] run_first_def Let_def completion_events_def)
    then show ?thesis using p by simp
  next
    case (Run2 a)
    have "tasks (fire e k s) = pre @ post"
      by (simp add: fire_Run2 [OF True Run2] td)
    then have p: "pending_completions s = pending_completions (fire e k s)"
      using pending_completions_split [OF ts, of "fire e k s"] Run2 by simp
    have "completion_events (fire e k s) = completion_events s"
      by (simp add: fire_Run2 [OF True Run2] run_second_def Let_def completion_events_def
          split: sum.splits bool.splits)
    then show ?thesis using p by simp
  qed
qed

lemma count_exec:
  "completion_events (exec P x s) + pending_completions (exec P x s) =
   completion_events s + pending_completions s + (if is_perform x then 1 else 0)"
proof -
  obtain e c where x: "x = (e, c)" by (cases x)
  show ?thesis
  proof (cases c)
    case (PerformAction cmd)
    then show ?thesis
      by (simp add: x completion_events_def pending_completions_def)
  next
    case (StartActivity req)
    then show ?thesis using count_start [of P e req s] by (simp add: x)
  next
    case (CancelActivity cmd)
    then show ?thesis using count_cancel [of e cmd s] by (simp add: x)
  next
    case (GetStatus i)
    then show ?thesis by (simp add: x)
  next
    case (GetData i)
    then show ?thesis by (simp add: x)
  next
    case (Fire k)
    then show ?thesis using count_fire [of e k s] by (simp add: x)
  qed
qed

lemma count_run_ops:
  "completion_events (run_ops P xs s) + pending_completions (run_ops P xs s) =
   completion_events s + pending_completions s + performed xs"
proof (induction xs arbitrary: s)
  case Nil
  show ?case by (simp add: performed_def)
next
  case (Cons x xs)
  have "completion_events (run_ops P (x # xs) s) + pending_completions (run_ops P (x # xs) s) =
      completion_events (exec P x s) + pending_completions (exec P x s) + performed xs"
    using Cons.IH [of "exec P x s"] by simp
  also have "\<dots> = completion_events s + pending_completions s +
      (if is_perform x then 1 else 0) + performed xs"
    by (simp only: count_exec)
  finally show ?case
    by (simp add: performed_def)
qed

text \<open>
  C3, as stated, fails. The action name "cal" + U+0131 + "brate" does not equal CALIBRATE
  up to the case of its letters (the dotless i is another letter than I), yet its
  \<^verbatim>\<open>upper()\<close> is CALIBRATE, and the completion event carries ACTION_FAILURE and the
  statusMsg.
\<close>

theorem calibrate_counterexample:
  "\<not> eq_ignore_case (actionName cmd_dotless) ''CALIBRATE'' \<and>
   map_of (eventData (last (event_queue
      (fire env_ex 0 (snd (perform_action env_ex cmd_dotless init)))))) ''actionStatus'' =
     Some (S ''ACTION_FAILURE'') \<and>
   map_of (eventData (last (event_queue
      (fire env_ex 0 (snd (perform_action env_ex cmd_dotless init)))))) ''statusMsg'' =
     Some (S ''Calibration target not found'')"
  by code_simp

text \<open>
  C3, amended. perform_action schedules one completion task holding the command. When
  that task wakes, it ends (it leaves the pending tasks) and appends exactly one
  InstrumentActionCompletion event to the queue, carrying the action name. If the name
  equals CALIBRATE up to the case of its letters, a dotless i (U+0131) counting as an i,
  the event has actionStatus ACTION_FAILURE and the statusMsg
  "Calibration target not found"; for every other name it has actionStatus
  ACTION_SUCCESS and no statusMsg key. Over any run, the completion events in the queue
  and the completion tasks still pending grow together by exactly the number of
  perform_action calls: one event for each performed action, once its task has woken.
\<close>

theorem perform_action_completion:
  "tasks (snd (perform_action e0 cmd s)) = tasks s @ [Complete cmd (now_ts (clock e0))] \<and>
   (\<forall>k. k < length (tasks s) \<and> tasks s ! k = Complete cmd tb \<longrightarrow>
      tasks (fire e k s) = take k (tasks s) @ drop (Suc k) (tasks s) \<and>
      (\<exists>ev. event_queue (fire e k s) = event_queue s @ [ev] \<and>
         eventName ev = ''InstrumentActionCompletion'' \<and>
         map_of (eventData ev) ''actionName'' = Some (S (actionName cmd)) \<and>
         (eq_ignore_case (dotless_to_i (actionName cmd)) ''CALIBRATE'' \<longrightarrow>
            map_of (eventData ev) ''actionStatus'' = Some (S ''ACTION_FAILURE'') \<and>
            map_of (eventData ev) ''statusMsg'' = Some (S ''Calibration target not found'')) \<and>
         (\<not> eq_ignore_case (dotless_to_i (actionName cmd)) ''CALIBRATE'' \<longrightarrow>
            map_of (eventData ev) ''actionStatus'' = Some (S ''ACTION_SUCCESS'') \<and>
            map_of (eventData ev) ''statusMsg'' = None))) \<and>
   (\<forall>xs. completion_events (run_ops P xs s) + pending_completions (run_ops P xs s) =
      completion_events s + pending_completions s + performed xs)"
proof (intro conjI allI impI)
  show "tasks (snd (perform_action e0 cmd s)) = tasks s @ [Complete cmd (now_ts (clock e0))]"
    by simp
next
  fix xs
  show "completion_events (run_ops P xs s) + pending_completions (run_ops P xs s) =
      completion_events s + pending_completions s + performed xs"
    by (rule count_run_ops)
next
  fix k assume "k < length (tasks s) \<and> tasks s ! k = Complete cmd tb"
  then have k: "k < length (tasks s)" and t: "tasks s ! k = Complete cmd tb"
    by simp_all
  show "tasks (fire e k s) = take k (tasks s) @ drop (Suc k) (tasks s)"
    by (simp add: fire_Complete [OF k t])
  let ?ev = "\<lparr>eventName = ''InstrumentActionCompletion'',
               eventData = complete_payload e cmd tb\<rparr>"
  have q: "event_queue (fire e k s) = event_queue s @ [?ev]"
    by (simp add: fire_Complete [OF k t])
  have f: "map_of (complete_payload e cmd tb) ''actionStatus'' = Some (S ''ACTION_FAILURE'') \<and>
      map_of (complete_payload e cmd tb) ''statusMsg'' = Some (S ''Calibration target not found'')"
    if "eq_ignore_case (dotless_to_i (actionName cmd)) ''CALIBRATE''"
    using that by (simp add: complete_payload_def upper_CALIBRATE)
  have g: "map_of (complete_payload e cmd tb) ''actionStatus'' = Some (S ''ACTION_SUCCESS'') \<and>
      map_of (complete_payload e cmd tb) ''statusMsg'' = None"
    if "\<not> eq_ignore_case (dotless_to_i (actionName cmd)) ''CALIBRATE''"
    using that by (simp add: complete_payload_def upper_CALIBRATE)
  have n: "map_of (complete_payload e cmd tb) ''actionName'' = Some (S (actionName cmd))"
    by (simp add: complete_payload_def Let_def)
  show "\<exists>ev. event_queue (fire e k s) = event_queue s @ [ev] \<and>
         eventName ev = ''InstrumentActionCompletion'' \<and>
         map_of (eventData ev) ''actionName'' = Some (S (actionName cmd)) \<and>
         (eq_ignore_case (dotless_to_i (actionName cmd)) ''CALIBRATE'' \<longrightarrow>
            map_of (eventData ev) ''actionStatus'' = Some (S ''ACTION_FAILURE'') \<and>
            map_of (eventData ev) ''statusMsg'' = Some (S ''Calibration target not found'')) \<and>
         (\<not> eq_ignore_case (dotless_to_i (actionName cmd)) ''CALIBRATE'' \<longrightarrow>
            map_of (eventData ev) ''actionStatus'' = Some (S ''ACTION_SUCCESS'') \<and>
            map_of (eventData ev) ''statusMsg'' = None)"
    using q f g n by (intro exI [of _ ?ev]) simp
qed

theorem perform_action_completion_witness:
  "map_of (eventData (last (event_queue
      (fire env_ex 0 (snd (perform_action env_ex cmd_calibrate init)))))) ''actionStatus'' =
     Some (S ''ACTION_FAILURE'') \<and>
   map_of (eventData (last (event_queue
      (fire env_ex 0 (snd (perform_action env_ex cmd_calibrate init)))))) ''statusMsg'' =
     Some (S ''Calibration target not found'') \<and>
   tasks (fire env_ex 0 (snd (perform_action env_ex cmd_calibrate init))) = [] \<and>
   map_of (eventData (last (event_queue
      (fire env_ex 0 (snd (perform_action env_ex cmd_home init)))))) ''actionStatus'' =
     Some (S ''ACTION_SUCCESS'') \<and>
   map_of (eventData (last (event_queue
      (fire env_ex 0 (snd (perform_action env_ex cmd_home init)))))) ''statusMsg'' = None"
proof -
  let ?s1 = "snd (perform_action env_ex cmd_calibrate init)"
  let ?s2 = "snd (perform_action env_ex cmd_home init)"
  have h1: "0 < length (tasks ?s1) \<and> tasks ?s1 ! 0 = Complete cmd_calibrate 1700000000"
    by code_simp
  have h2: "0 < length (tasks ?s2) \<and> tasks ?s2 ! 0 = Complete cmd_home 1700000000"
    by code_simp
  have c1: "eq_ignore_case (dotless_to_i (actionName cmd_calibrate)) ''CALIBRATE''"
    by code_simp
  have c2: "\<not> eq_ignore_case (dotless_to_i (actionName cmd_home)) ''CALIBRATE''"
    by code_simp
  have r: "take 0 (tasks ?s1) @ drop (Suc 0) (tasks ?s1) = []"
    by code_simp
  note t1 = perform_action_completion [of env_ex cmd_calibrate ?s1 1700000000 env_ex isoparse_ex]
  note t2 = perform_action_completion [of env_ex cmd_home ?s2 1700000000 env_ex isoparse_ex]
  obtain ev1 where ev1: "event_queue (fire env_ex 0 ?s1) = event_queue ?s1 @ [ev1]"
    "map_of (eventData ev1) ''actionStatus'' = Some (S ''ACTION_FAILURE'')"
    "map_of (eventData ev1) ''statusMsg'' = Some (S ''Calibration target not found'')"
    using t1 h1 c1 by blast
  have tk: "tasks (fire env_ex 0 ?s1) = take 0 (tasks ?s1) @ drop (Suc 0) (tasks ?s1)"
    using t1 h1 by blast
  obtain ev2 where ev2: "event_queue (fire env_ex 0 ?s2) = event_queue ?s2 @ [ev2]"
    "map_of (eventData ev2) ''actionStatus'' = Some (S ''ACTION_SUCCESS'')"
    "map_of (eventData ev2) ''statusMsg'' = None"
    using t2 h2 c2 by blast
  have l1: "last (event_queue (fire env_ex 0 ?s1)) = ev1"
    unfolding ev1(1) by simp
  have l2: "last (event_queue (fire env_ex 0 ?s2)) = ev2"
    unfolding ev2(1) by simp
  show ?thesis
    unfolding l1 l2 using ev1(2,3) ev2(2,3) tk [unfolded r] by blast
qed

subsection \<open>The second timer\<close>

lemma reachable_examples2:
  "reachable isoparse_ex s_past" "reachable isoparse_ex s_canceled_then_first"
  "reachable isoparse_ex s_canceled_between" "reachable isoparse_ex s_canceled_after"
  "reachable isoparse_ex s_far"
  unfolding s_past_def s_canceled_then_first_def s_canceled_between_def s_canceled_after_def
    s_far_def
  by (intro reachable_run_ops reachable_init reachable_examples)+

lemma deadline_exceeded_True:
  "deadline_exceeded e st = Inr True \<longleftrightarrow>
     (\<exists>d t. deadline st = Some d \<and> astimezone_utc d = Inr t \<and> t < clock e)"
  by (auto simp: deadline_exceeded_def split: option.splits sum.splits)

lemma deadline_exceeded_False:
  "deadline_exceeded e st = Inr False \<longleftrightarrow>
     deadline st = None \<or>
     (\<exists>d t. deadline st = Some d \<and> astimezone_utc d = Inr t \<and> \<not> t < clock e)"
  by (auto simp: deadline_exceeded_def split: option.splits sum.splits)

lemma pending_second:
  assumes r: "reachable P s" and k: "k < length (tasks s)" and t: "tasks s ! k = Run2 a"
  shows "a < length (objects s)" "products (objects s ! a) = []"
    "activities s (activityId (objects s ! a)) = Some a"
proof -
  have m: "Run2 a \<in> set (tasks s)"
    using nth_mem [OF k] t by simp
  then have "a \<in> set (run_addrs (tasks s))"
    by (rule Run_in_addrs)
  then show a: "a < length (objects s)"
    using invD(1) [OF reachable_inv [OF r]] by (simp add: tasks_ok_def)
  have "obj_ok (tasks s) a (objects s ! a)"
    by (rule objs_okD [OF invD(4) [OF reachable_inv [OF r]] a])
  then show "products (objects s ! a) = []"
    using m by (simp add: obj_ok_def)
  show "activities s (activityId (objects s ! a)) = Some a"
    using invD(2) [OF reachable_inv [OF r]] a by (simp add: registry_ok_def)
qed

text \<open>
  C6, as stated, fails in two ways. With the deadline 9999-12-31T23:59:59-14:00, which
  parses, the conversion to UTC on line 151 raises: the second timer step ends the task
  and leaves the record IN_PROGRESS with no timeEnd, neither canceled nor completed. And
  the two product identifiers are whatever the two uuid4 calls return: the program does
  not compare them, so when both calls return the same value the record is COMPLETED with
  a duplicated product.
\<close>

theorem run_second_counterexample:
  "tasks s_far = [Run2 0] \<and>
   status (objects (fire env_ex 0 s_far) ! 0) = ''ACTIVITY_IN_PROGRESS'' \<and>
   timeEnd (objects (fire env_ex 0 s_far) ! 0) = None \<and>
   tasks (fire env_ex 0 s_far) = [] \<and>
   status (objects (fire env_same 0 s_in_progress) ! 0) = ''ACTIVITY_COMPLETED'' \<and>
   products (objects (fire env_same 0 s_in_progress) ! 0) = [''5f0c'', ''5f0c''] \<and>
   \<not> distinct (products (objects (fire env_same 0 s_in_progress) ! 0))"
  by code_simp

text \<open>
  C6, amended. When the second timer of a started activity fires (its task is pending
  in its second sleep), the task ends, and: if the record has a deadline that converts to
  UTC and the clock is past it, the record becomes CANCELED with statusMsg
  "Deadline exceeded", timeEnd set and an empty products list, and a data query answers
  "Data not ready"; if the record has no deadline, or one that converts to UTC and the
  clock is not past it, the record becomes COMPLETED with timeEnd set and a products list
  of exactly two identifiers, the values the two uuid4 calls of the step returned, in
  that order (distinct exactly when the two calls return different values). Neither case
  looks at the status the record had.
\<close>

theorem run_second_outcome:
  assumes "reachable P s" and "k < length (tasks s)" and "tasks s ! k = Run2 a"
  shows "tasks (fire e k s) = take k (tasks s) @ drop (Suc k) (tasks s) \<and>
    ((\<exists>d t. deadline (objects s ! a) = Some d \<and> astimezone_utc d = Inr t \<and> t < clock e) \<longrightarrow>
       status (objects (fire e k s) ! a) = ''ACTIVITY_CANCELED'' \<and>
       statusMsg (objects (fire e k s) ! a) = Some ''Deadline exceeded'' \<and>
       timeEnd (objects (fire e k s) ! a) = Some (now_ts (clock e)) \<and>
       products (objects (fire e k s) ! a) = [] \<and>
       get_activity_data (activityId (objects s ! a)) (fire e k s) =
         JSONResponse 200 [(''products'', L []), (''errorMsg'', S ''Data not ready'')]) \<and>
    (deadline (objects s ! a) = None \<or>
     (\<exists>d t. deadline (objects s ! a) = Some d \<and> astimezone_utc d = Inr t \<and> \<not> t < clock e) \<longrightarrow>
       status (objects (fire e k s) ! a) = ''ACTIVITY_COMPLETED'' \<and>
       timeEnd (objects (fire e k s) ! a) = Some (now_ts (clock e)) \<and>
       products (objects (fire e k s) ! a) = [uuid_a e, uuid_b e] \<and>
       length (products (objects (fire e k s) ! a)) = 2 \<and>
       (distinct (products (objects (fire e k s) ! a)) \<longleftrightarrow> uuid_a e \<noteq> uuid_b e))"
proof -
  note p = pending_second [OF assms]
  note f = fire_Run2 [OF assms(2,3)]
  have tk: "tasks (fire e k s) = take k (tasks s) @ drop (Suc k) (tasks s)"
    by (simp add: f)
  have c: "status (objects (fire e k s) ! a) = ''ACTIVITY_CANCELED'' \<and>
       statusMsg (objects (fire e k s) ! a) = Some ''Deadline exceeded'' \<and>
       timeEnd (objects (fire e k s) ! a) = Some (now_ts (clock e)) \<and>
       products (objects (fire e k s) ! a) = [] \<and>
       get_activity_data (activityId (objects s ! a)) (fire e k s) =
         JSONResponse 200 [(''products'', L []), (''errorMsg'', S ''Data not ready'')]"
    if h: "\<exists>d t. deadline (objects s ! a) = Some d \<and> astimezone_utc d = Inr t \<and> t < clock e"
  proof -
    have x: "deadline_exceeded e (objects s ! a) = Inr True"
      using h by (simp only: deadline_exceeded_True)
    have o: "objects (fire e k s) ! a =
        (objects s ! a)\<lparr>status := ''ACTIVITY_CANCELED'',
           statusMsg := Some ''Deadline exceeded'', timeEnd := Some (now_ts (clock e))\<rparr>"
      using p(1) by (simp add: f x)
    have act: "activities (fire e k s) (activityId (objects s ! a)) = Some a"
      using p(3) by (simp add: f)
    have g: "get_activity_data (activityId (objects s ! a)) (fire e k s) =
         JSONResponse 200 [(''products'', L []), (''errorMsg'', S ''Data not ready'')]"
      by (simp add: get_activity_data_def act o)
    show ?thesis
      using g unfolding o by (simp add: p(2))
  qed
  have d: "status (objects (fire e k s) ! a) = ''ACTIVITY_COMPLETED'' \<and>
       timeEnd (objects (fire e k s) ! a) = Some (now_ts (clock e)) \<and>
       products (objects (fire e k s) ! a) = [uuid_a e, uuid_b e] \<and>
       length (products (objects (fire e k s) ! a)) = 2 \<and>
       (distinct (products (objects (fire e k s) ! a)) \<longleftrightarrow> uuid_a e \<noteq> uuid_b e)"
    if h: "deadline (objects s ! a) = None \<or>
     (\<exists>d t. deadline (objects s ! a) = Some d \<and> astimezone_utc d = Inr t \<and> \<not> t < clock e)"
  proof -
    have x: "deadline_exceeded e (objects s ! a) = Inr False"
      using h by (simp only: deadline_exceeded_False)
    have o: "objects (fire e k s) ! a =
        (objects s ! a)\<lparr>status := ''ACTIVITY_COMPLETED'',
           timeEnd := Some (now_ts (clock e)), products := [uuid_a e, uuid_b e]\<rparr>"
      using p(1) by (simp add: f x)
    show ?thesis
      unfolding o by simp
  qed
  show ?thesis
    using tk c d by blast
qed

theorem run_second_outcome_witness:
  "status (objects (fire env_ex 0 s_past) ! 0) = ''ACTIVITY_CANCELED'' \<and>
   statusMsg (objects (fire env_ex 0 s_past) ! 0) = Some ''Deadline exceeded'' \<and>
   timeEnd (objects (fire env_ex 0 s_past) ! 0) = Some 1700000000 \<and>
   products (objects (fire env_ex 0 s_past) ! 0) = [] \<and>
   status (objects (fire env_ex 0 s_in_progress) ! 0) = ''ACTIVITY_COMPLETED'' \<and>
   products (objects (fire env_ex 0 s_in_progress) ! 0) = [''5f0c'', ''9ab1''] \<and>
   distinct (products (objects (fire env_ex 0 s_in_progress) ! 0))"
proof -
  have h1: "0 < length (tasks s_past)" "tasks s_past ! 0 = Run2 0"
    by code_simp+
  have h2: "0 < length (tasks s_in_progress)" "tasks s_in_progress ! 0 = Run2 0"
    by code_simp+
  have d1: "\<exists>d t. deadline (objects s_past ! 0) = Some d \<and> astimezone_utc d = Inr t \<and>
      t < clock env_ex"
  proof (intro exI conjI)
    show "deadline (objects s_past ! 0) = Some (Instant 1577836800000000)" by code_simp
    show "astimezone_utc (Instant 1577836800000000) = Inr 1577836800000000" by code_simp
    show "1577836800000000 < clock env_ex" by code_simp
  qed
  have d2: "deadline (objects s_in_progress ! 0) = None \<or>
     (\<exists>d t. deadline (objects s_in_progress ! 0) = Some d \<and> astimezone_utc d = Inr t \<and>
        \<not> t < clock env_ex)"
  proof -
    have "deadline (objects s_in_progress ! 0) = None" by code_simp
    then show ?thesis by simp
  qed
  have u: "uuid_a env_ex = ''5f0c''" "uuid_b env_ex = ''9ab1''" "now_ts (clock env_ex) = 1700000000"
    by code_simp+
  note t1 = run_second_outcome [OF reachable_examples2(1) h1, of env_ex]
  note t2 = run_second_outcome [OF reachable_examples(2) h2, of env_ex]
  have a1: "status (objects (fire env_ex 0 s_past) ! 0) = ''ACTIVITY_CANCELED'' \<and>
       statusMsg (objects (fire env_ex 0 s_past) ! 0) = Some ''Deadline exceeded'' \<and>
       timeEnd (objects (fire env_ex 0 s_past) ! 0) = Some (now_ts (clock env_ex)) \<and>
       products (objects (fire env_ex 0 s_past) ! 0) = []"
    using t1 d1 by blast
  have a2: "status (objects (fire env_ex 0 s_in_progress) ! 0) = ''ACTIVITY_COMPLETED'' \<and>
       products (objects (fire env_ex 0 s_in_progress) ! 0) = [uuid_a env_ex, uuid_b env_ex] \<and>
       (distinct (products (objects (fire env_ex 0 s_in_progress) ! 0)) \<longleftrightarrow>
          uuid_a env_ex \<noteq> uuid_b env_ex)"
    using t2 d2 by blast
  show ?thesis
    using a1 a2 by (simp add: u)
qed

subsection \<open>Products and timeEnd of the reachable records\<close>

lemma pending_addr:
  assumes "k < length ts" and "ts ! k = Run1 b \<or> ts ! k = Run2 b"
  shows "b \<in> set (run_addrs ts)"
proof -
  have "ts ! k \<in> set ts" using assms(1) by (rule nth_mem)
  then show ?thesis
    using assms(2) Run_in_addrs by metis
qed

lemma reachable_obj_ok:
  assumes "reachable P s" and "st \<in> set (objects s)"
  obtains a where "a < length (objects s)" "objects s ! a = st" "obj_ok (tasks s) a st"
proof -
  obtain a where a: "a < length (objects s)" "objects s ! a = st"
    using assms(2) by (auto simp: in_set_conv_nth)
  have "obj_ok (tasks s) a (objects s ! a)"
    by (rule objs_okD [OF invD(4) [OF reachable_inv [OF assms(1)]] a(1)])
  then show ?thesis using a that by simp
qed

lemma products_at_same:
  assumes "length (objects s') = length (objects s)"
    and "products (objects s' ! a) = products (objects s ! a)"
  shows "products_at s' a = products_at s a"
  using assms by (simp add: products_at_def)

lemma products_update:
  "products v = products (xs ! b) \<Longrightarrow> products (xs[b := v] ! a) = products (xs ! a)"
  by (auto simp: nth_list_update_cases)

lemma products_start:
  "products_at (snd (start_activity P e req s)) a = products_at s a"
proof (cases "req_activityName req \<in> set ACTIVITIES")
  case False
  then show ?thesis by (simp add: start_activity_unknown)
next
  case True
  show ?thesis
  proof (cases "parse_deadline P req")
    case (Inl ex)
    then show ?thesis
      by (simp add: start_activity_invalid [OF True Inl] products_at_def)
  next
    case (Inr dl)
    then show ?thesis
      by (simp add: start_activity_ok [OF True Inr] products_at_def nth_append new_state_def
          less_Suc_eq)
  qed
qed

lemma products_cancel:
  "products (objects (snd (cancel_activity e cmd s)) ! a) = products (objects s ! a)"
proof (cases "activities s (cmd_activityId cmd)")
  case None
  then show ?thesis by (simp add: cancel_activity_unknown)
next
  case (Some b)
  show ?thesis
    by (simp add: cancel_activity_known [OF Some] products_update)
qed

lemma length_cancel:
  "length (objects (snd (cancel_activity e cmd s))) = length (objects s)"
  by (cases "activities s (cmd_activityId cmd)")
     (simp_all add: cancel_activity_unknown cancel_activity_known)

lemma products_fire:
  assumes "inv s"
  shows "products_at (fire e k s) a \<noteq> [] \<longleftrightarrow>
     products_at s a \<noteq> [] \<or> completes (e, Fire k) s a"
proof (cases "k < length (tasks s)")
  case False
  then show ?thesis by (simp add: fire_idle)
next
  case True
  show ?thesis
  proof (cases "tasks s ! k")
    case (Complete c tb)
    then show ?thesis
      using True by (simp add: fire_Complete [OF True Complete] products_at_def)
  next
    case (Run1 b)
    have "products_at (fire e k s) a = products_at s a"
      by (rule products_at_same) (simp_all add: fire_Run1 [OF True Run1] products_update)
    then show ?thesis
      using Run1 by simp
  next
    case (Run2 b)
    have b: "b < length (objects s)"
      using pending_addr [OF True, of b] Run2 invD(1) [OF assms]
      by (simp add: tasks_ok_def)
    show ?thesis
    proof (cases "deadline_exceeded e (objects s ! b)")
      case (Inl ex)
      have "fire e k s = s\<lparr>tasks := take k (tasks s) @ drop (Suc k) (tasks s)\<rparr>"
        using Inl by (simp add: fire_Run2 [OF True Run2] run_second_def)
      then have "products_at (fire e k s) a = products_at s a"
        by (simp add: products_at_def)
      then show ?thesis
        using Run2 Inl by auto
    next
      case (Inr c)
      show ?thesis
      proof (cases c)
        case True
        have "products_at (fire e k s) a = products_at s a"
          using Inr True
          by (intro products_at_same)
             (simp_all add: fire_Run2 [OF \<open>k < length (tasks s)\<close> Run2] products_update)
        then show ?thesis
          using Run2 Inr True by auto
      next
        case False
        have o: "objects (fire e k s) =
            (objects s)[b := (objects s ! b)\<lparr>status := ''ACTIVITY_COMPLETED'',
               timeEnd := Some (now_ts (clock e)), products := [uuid_a e, uuid_b e]\<rparr>]"
          using Inr False by (simp add: fire_Run2 [OF \<open>k < length (tasks s)\<close> Run2])
        show ?thesis
        proof (cases "a = b")
          case True
          then show ?thesis
            using b Run2 Inr False \<open>k < length (tasks s)\<close> by (simp add: products_at_def o)
        next
          case ne: False
          then have "products_at (fire e k s) a = products_at s a"
            by (simp add: products_at_def o)
          then show ?thesis
            using Run2 ne by auto
        qed
      qed
    qed
  qed
qed

lemma products_exec:
  assumes "inv s"
  shows "products_at (exec P x s) a \<noteq> [] \<longleftrightarrow> products_at s a \<noteq> [] \<or> completes x s a"
proof -
  obtain e c where x: "x = (e, c)" by (cases x)
  show ?thesis
  proof (cases c)
    case (PerformAction cmd)
    then show ?thesis by (simp add: x products_at_def)
  next
    case (StartActivity req)
    then show ?thesis by (simp add: x products_start)
  next
    case (CancelActivity cmd)
    have "products_at (snd (cancel_activity e cmd s)) a = products_at s a"
      by (rule products_at_same) (simp_all add: length_cancel products_cancel)
    then show ?thesis using CancelActivity by (simp add: x)
  next
    case (GetStatus i)
    then show ?thesis by (simp add: x)
  next
    case (GetData i)
    then show ?thesis by (simp add: x)
  next
    case (Fire k)
    then show ?thesis using products_fire [OF assms, of e k a] by (simp add: x)
  qed
qed

lemma inv_run_ops: "inv s \<Longrightarrow> inv (run_ops P xs s)"
  by (induction xs arbitrary: s) (simp_all add: inv_exec)

lemma products_run_ops:
  assumes "inv s"
  shows "products_at (run_ops P xs s) a \<noteq> [] \<longleftrightarrow>
     products_at s a \<noteq> [] \<or> completed_in P xs s a"
  using assms
proof (induction xs arbitrary: s)
  case Nil
  show ?case by simp
next
  case (Cons x xs)
  have "products_at (run_ops P (x # xs) s) a \<noteq> [] \<longleftrightarrow>
      products_at (exec P x s) a \<noteq> [] \<or> completed_in P xs (exec P x s) a"
    using Cons.IH [OF inv_exec [OF Cons.prems]] by simp
  also have "\<dots> \<longleftrightarrow> (products_at s a \<noteq> [] \<or> completes x s a) \<or>
      completed_in P xs (exec P x s) a"
    by (simp only: products_exec [OF Cons.prems])
  finally show ?case by auto
qed

text \<open>
  C2, as stated, fails: the run start, first timer, second timer, cancel leaves the
  record of act_0001 with status CANCELED and the two products of its completion, since
  cancel_activity does not touch the products.
\<close>

theorem products_counterexample:
  "activities s_canceled_after ''act_0001'' = Some 0 \<and>
   status (objects s_canceled_after ! 0) = ''ACTIVITY_CANCELED'' \<and>
   products (objects s_canceled_after ! 0) = [''5f0c'', ''9ab1''] \<and>
   \<not> (products (objects s_canceled_after ! 0) \<noteq> [] \<longleftrightarrow>
       status (objects s_canceled_after ! 0) = ''ACTIVITY_COMPLETED'')"
  by code_simp

text \<open>
  C2, amended. After any run of start, cancel and timer-step operations, for every
  activity record: its products list is non-empty if and only if the run has a step in
  which its second timer completed it. A record with products has exactly two and has
  status COMPLETED or CANCELED; a record with status COMPLETED has products. No cancel
  command changes a products list, so an activity canceled after completing keeps its
  products while its status is CANCELED, and those are the only records with products
  that are not COMPLETED.
\<close>

theorem products_invariant:
  assumes "a < length (objects (run_ops P xs init))"
  shows "(products (objects (run_ops P xs init) ! a) \<noteq> [] \<longleftrightarrow> completed_in P xs init a) \<and>
    (products (objects (run_ops P xs init) ! a) \<noteq> [] \<longrightarrow>
       length (products (objects (run_ops P xs init) ! a)) = 2 \<and>
       (status (objects (run_ops P xs init) ! a) = ''ACTIVITY_COMPLETED'' \<or>
        status (objects (run_ops P xs init) ! a) = ''ACTIVITY_CANCELED'')) \<and>
    (status (objects (run_ops P xs init) ! a) = ''ACTIVITY_COMPLETED'' \<longrightarrow>
       products (objects (run_ops P xs init) ! a) \<noteq> []) \<and>
    (\<forall>e cmd. products (objects (snd (cancel_activity e cmd (run_ops P xs init))) ! a) =
       products (objects (run_ops P xs init) ! a))"
proof -
  let ?s = "run_ops P xs init"
  have i: "inv ?s"
    by (rule inv_run_ops [OF inv_init])
  have o: "obj_ok (tasks ?s) a (objects ?s ! a)"
    by (rule objs_okD [OF invD(4) [OF i] assms])
  have "products_at ?s a \<noteq> [] \<longleftrightarrow> products_at init a \<noteq> [] \<or> completed_in P xs init a"
    by (rule products_run_ops [OF inv_init])
  then have iff: "products (objects ?s ! a) \<noteq> [] \<longleftrightarrow> completed_in P xs init a"
    using assms by (simp add: products_at_def init_def)
  have two: "products (objects ?s ! a) \<noteq> [] \<longrightarrow>
       length (products (objects ?s ! a)) = 2 \<and>
       (status (objects ?s ! a) = ''ACTIVITY_COMPLETED'' \<or>
        status (objects ?s ! a) = ''ACTIVITY_CANCELED'')"
    using o by (simp add: obj_ok_def terminal_def)
  have comp: "status (objects ?s ! a) = ''ACTIVITY_COMPLETED'' \<longrightarrow>
       products (objects ?s ! a) \<noteq> []"
    using o by (auto simp: obj_ok_def)
  show ?thesis
    using iff two comp products_cancel by blast
qed

theorem products_invariant_witness:
  "length (products (objects s_completed ! 0)) = 2 \<and>
   completed_in isoparse_ex
     [(env_ex, StartActivity req_build), (env_ex, Fire 0), (env_ex, Fire 0)] init 0 \<and>
   products (objects s_canceled_after ! 0) = products (objects s_completed ! 0) \<and>
   products (objects s_canceled ! 0) = []"
proof -
  let ?xs = "[(env_ex, StartActivity req_build), (env_ex, Fire 0), (env_ex, Fire 0)]"
  let ?ys = "[(env_ex, StartActivity req_build), (env_ex, CancelActivity cmd_cancel)]"
  have s: "s_completed = run_ops isoparse_ex ?xs init"
    "s_canceled = run_ops isoparse_ex ?ys init"
    "s_canceled_after = snd (cancel_activity env_ex cmd_cancel (run_ops isoparse_ex ?xs init))"
    by (simp_all add: s_completed_def s_in_progress_def s_started_def s_canceled_def
        s_canceled_after_def)
  have h: "0 < length (objects (run_ops isoparse_ex ?xs init))"
    "0 < length (objects (run_ops isoparse_ex ?ys init))"
    by code_simp+
  have c: "status (objects (run_ops isoparse_ex ?xs init) ! 0) = ''ACTIVITY_COMPLETED''"
    "\<not> completed_in isoparse_ex ?ys init 0"
    by code_simp+
  note t1 = products_invariant [OF h(1)]
  note t2 = products_invariant [OF h(2)]
  have "products (objects (run_ops isoparse_ex ?xs init) ! 0) \<noteq> []"
    using t1 c(1) by blast
  then have "length (products (objects (run_ops isoparse_ex ?xs init) ! 0)) = 2"
    and "completed_in isoparse_ex ?xs init 0"
    using t1 by blast+
  moreover have "products (objects
      (snd (cancel_activity env_ex cmd_cancel (run_ops isoparse_ex ?xs init))) ! 0) =
     products (objects (run_ops isoparse_ex ?xs init) ! 0)"
    using t1 by blast
  moreover have "products (objects (run_ops isoparse_ex ?ys init) ! 0) = []"
    using t2 c(2) by blast
  ultimately show ?thesis
    unfolding s by blast
qed

text \<open>
  C7, as stated, fails: the run start, cancel, first timer leaves the record of act_0001
  with status IN_PROGRESS, which is not terminal, and the timeEnd the cancel has set.
\<close>

theorem timeEnd_counterexample:
  "activities s_canceled_then_first ''act_0001'' = Some 0 \<and>
   status (objects s_canceled_then_first ! 0) = ''ACTIVITY_IN_PROGRESS'' \<and>
   timeEnd (objects s_canceled_then_first ! 0) = Some 1700000000 \<and>
   \<not> (timeEnd (objects s_canceled_then_first ! 0) \<noteq> None \<longleftrightarrow>
       terminal (status (objects s_canceled_then_first ! 0)))"
  by code_simp

text \<open>
  C7, amended. In every reachable state, for every activity record: timeEnd is set if
  and only if the status is COMPLETED or a statusMsg is set (a cancel command and the
  deadline both set the two together). So timeEnd is set if the status is terminal, it
  is not set if the status is PENDING, and when the status is IN_PROGRESS it is set only
  on a record that a cancel command has canceled before the timer made it IN_PROGRESS,
  which then carries the reason as statusMsg: an IN_PROGRESS record without statusMsg has
  no timeEnd.
\<close>

theorem timeEnd_invariant:
  assumes "reachable P s" and "st \<in> set (objects s)"
  shows "(timeEnd st \<noteq> None \<longleftrightarrow> status st = ''ACTIVITY_COMPLETED'' \<or> statusMsg st \<noteq> None) \<and>
    (terminal (status st) \<longrightarrow> timeEnd st \<noteq> None) \<and>
    (status st = ''ACTIVITY_PENDING'' \<longrightarrow> timeEnd st = None) \<and>
    (status st = ''ACTIVITY_IN_PROGRESS'' \<and> statusMsg st = None \<longrightarrow> timeEnd st = None)"
proof -
  obtain a where "obj_ok (tasks s) a st"
    using reachable_obj_ok [OF assms] by blast
  then have o: "timeEnd st \<noteq> None \<longleftrightarrow> status st = ''ACTIVITY_COMPLETED'' \<or> statusMsg st \<noteq> None"
    "status st = ''ACTIVITY_CANCELED'' \<longrightarrow> statusMsg st \<noteq> None"
    "status st = ''ACTIVITY_PENDING'' \<longrightarrow> statusMsg st = None"
    by (simp_all add: obj_ok_def)
  show ?thesis
  proof (intro conjI impI)
    show "timeEnd st \<noteq> None \<longleftrightarrow> status st = ''ACTIVITY_COMPLETED'' \<or> statusMsg st \<noteq> None"
      by (rule o(1))
    show "timeEnd st \<noteq> None" if "terminal (status st)"
      using that o(1,2) by (auto simp: terminal_def)
    show "timeEnd st = None" if "status st = ''ACTIVITY_PENDING''"
      using that o(1,3) by auto
    show "timeEnd st = None" if "status st = ''ACTIVITY_IN_PROGRESS'' \<and> statusMsg st = None"
      using that o(1) by auto
  qed
qed

theorem timeEnd_invariant_witness:
  "timeEnd (objects s_completed ! 0) \<noteq> None \<and> timeEnd (objects s_started ! 0) = None \<and>
   timeEnd (objects s_in_progress ! 0) = None"
proof -
  have m: "objects s_completed ! 0 \<in> set (objects s_completed)"
    "objects s_started ! 0 \<in> set (objects s_started)"
    "objects s_in_progress ! 0 \<in> set (objects s_in_progress)"
    by code_simp+
  have c: "terminal (status (objects s_completed ! 0))"
    "status (objects s_started ! 0) = ''ACTIVITY_PENDING''"
    "status (objects s_in_progress ! 0) = ''ACTIVITY_IN_PROGRESS'' \<and>
     statusMsg (objects s_in_progress ! 0) = None"
    by code_simp+
  show ?thesis
    using timeEnd_invariant [OF reachable_examples(3) m(1)]
      timeEnd_invariant [OF reachable_examples(1) m(2)]
      timeEnd_invariant [OF reachable_examples(2) m(3)] c
    by blast
qed

subsection \<open>Which steps change a status\<close>















end
